theory Spec2Isabelle
  imports Complex_Main "HOL-Library.AList" "HOL-Library.Multiset"
begin

section \<open>Python values used by the pipeline\<close>

text \<open>
  A Python \<open>str\<close> is a sequence of Unicode code points; a text is modelled as the list of
  its code points, so that \<open>len\<close>, slicing and the whitespace test count what Python counts.
  Dictionary keys and the literal labels of the program are ordinary (ASCII) strings.
\<close>

type_synonym pystr = "nat list"

text \<open>The exceptions that the modelled code can raise.\<close>

datatype error =
    ValueError_max_empty      \<comment> \<open>\<open>ValueError: max() arg is an empty sequence\<close>\<close>
  | ValueError_range_step     \<comment> \<open>\<open>ValueError: range() arg 3 must not be zero\<close>\<close>
  | IndexError                \<comment> \<open>index out of bounds in a probability row\<close>
  | KeyError                  \<comment> \<open>missing dictionary key\<close>
  | ScorerFailure             \<comment> \<open>anything raised by tokenizer or model in \<open>_predict_raw\<close>\<close>
  | PersistenceFailure        \<comment> \<open>anything raised by \<open>insert_one\<close>\<close>

text \<open>
  Python floats are idealised as real numbers, plus the one special value that the code
  can produce from real inputs: \<open>numpy.mean\<close> of an empty list is \<open>nan\<close>. Every ordering
  comparison with \<open>nan\<close> is false.
\<close>

datatype pyfloat = Num real | NaN

fun fge :: "pyfloat \<Rightarrow> real \<Rightarrow> bool" where
  "fge (Num x) t = (t \<le> x)"
| "fge NaN t = False"

fun fgt :: "pyfloat \<Rightarrow> pyfloat \<Rightarrow> bool" where
  "fgt (Num x) (Num y) = (y < x)"
| "fgt _ _ = False"

text \<open>\<open>max(xs)\<close>: raises on an empty list, otherwise keeps the first largest item.\<close>

fun py_max :: "pyfloat list \<Rightarrow> error + pyfloat" where
  "py_max [] = Inl ValueError_max_empty"
| "py_max (x # xs) = Inr (foldl (\<lambda>m y. if fgt y m then y else m) x xs)"

text \<open>\<open>numpy.mean\<close> of a list of numbers.\<close>

definition np_mean :: "real list \<Rightarrow> pyfloat" where
  "np_mean xs = (if xs = [] then NaN else Num (sum_list xs / real (length xs)))"

text \<open>\<open>round(x, nd)\<close>: to the nearest multiple of \<open>10^-nd\<close>, ties to the even one.\<close>

definition round_half_even :: "real \<Rightarrow> int" where
  "round_half_even y =
     (let f = \<lfloor>y\<rfloor>; d = y - of_int f
      in if d < 1/2 then f else if 1/2 < d then f + 1 else if even f then f else f + 1)"

definition py_round :: "nat \<Rightarrow> real \<Rightarrow> real" where
  "py_round nd x = of_int (round_half_even (x * 10 ^ nd)) / 10 ^ nd"

fun fround :: "nat \<Rightarrow> pyfloat \<Rightarrow> pyfloat" where
  "fround nd (Num x) = Num (py_round nd x)"
| "fround nd NaN = NaN"

text \<open>A list comprehension whose element expression can raise stops at the first raise.\<close>

fun map_err :: "('a \<Rightarrow> error + 'b) \<Rightarrow> 'a list \<Rightarrow> error + 'b list" where
  "map_err f [] = Inr []"
| "map_err f (x # xs) =
     (case f x of
        Inl e \<Rightarrow> Inl e
      | Inr y \<Rightarrow> (case map_err f xs of Inl e \<Rightarrow> Inl e | Inr ys \<Rightarrow> Inr (y # ys)))"

text \<open>\<open>row[i]\<close> for a non-negative index.\<close>

definition getitem :: "'a list \<Rightarrow> nat \<Rightarrow> error + 'a" where
  "getitem row i = (if i < length row then Inr (row ! i) else Inl IndexError)"

subsection \<open>Whitespace, \<open>str.split()\<close>, \<open>str.strip()\<close>, \<open>str.join\<close>\<close>

text \<open>The code points that Python treats as whitespace in \<open>split()\<close> and \<open>strip()\<close>.\<close>

definition is_space :: "nat \<Rightarrow> bool" where
  "is_space c \<longleftrightarrow>
     (9 \<le> c \<and> c \<le> 13) \<or> (28 \<le> c \<and> c \<le> 32) \<or> c = 133 \<or> c = 160 \<or> c = 5760 \<or>
     (8192 \<le> c \<and> c \<le> 8202) \<or> c = 8232 \<or> c = 8233 \<or> c = 8239 \<or> c = 8287 \<or> c = 12288"

text \<open>
  \<open>text.split()\<close>: the maximal runs of non-whitespace, in order. \<open>cur\<close> is the word being
  read, reversed.
\<close>

fun split_acc :: "pystr \<Rightarrow> pystr \<Rightarrow> pystr list" where
  "split_acc cur [] = (if cur = [] then [] else [rev cur])"
| "split_acc cur (c # cs) =
     (if is_space c
      then (if cur = [] then split_acc [] cs else rev cur # split_acc [] cs)
      else split_acc (c # cur) cs)"

definition str_split :: "pystr \<Rightarrow> pystr list" where
  "str_split t = split_acc [] t"

definition str_strip :: "pystr \<Rightarrow> pystr" where
  "str_strip t = rev (dropWhile is_space (rev (dropWhile is_space t)))"

fun str_join :: "pystr \<Rightarrow> pystr list \<Rightarrow> pystr" where
  "str_join sep [] = []"
| "str_join sep [w] = w"
| "str_join sep (w # v # ws) = w @ sep @ str_join sep (v # ws)"

text \<open>The truth test \<open>not text or not text.strip()\<close> used by both entry points.\<close>

definition is_blank :: "pystr \<Rightarrow> bool" where
  "is_blank t \<longleftrightarrow> t = [] \<or> str_strip t = []"

section \<open>The classifier (\<open>models/classifier.py\<close>)\<close>

text \<open>
  The three thresholds are module constants read from the environment; the defaults are
  the ones written in the source.
\<close>

record config =
  THRESHOLD_SLIGHTLY_TOXIC :: real
  THRESHOLD_VERY_TOXIC :: real
  ARTICLE_THRESHOLD :: real

definition default_config :: config where
  "default_config =
     \<lparr>THRESHOLD_SLIGHTLY_TOXIC = 3/10, THRESHOLD_VERY_TOXIC = 65/100, ARTICLE_THRESHOLD = 1/2\<rparr>"

text \<open>
  The state of a \<open>ToxicityClassifier\<close> that \<open>predict\<close> reads. The tokenizer and the model
  are external: \<open>predict_raw cls seg\<close> stands for \<open>self._predict_raw([seg])[0]\<close>, the row of
  label probabilities of one segment, or \<open>None\<close> when that call raises. \<open>id2label\<close> is the
  label vocabulary, indexed from 0; \<open>toxic_labels\<close> are the indices chosen at construction.
\<close>

record classifier =
  id2label :: "string list"
  toxic_labels :: "nat list"
  predict_raw :: "pystr \<Rightarrow> real list option"

text \<open>
  \<open>_split_text\<close>: the loop \<open>for i in range(0, len(words), max_words)\<close>, from index \<open>i\<close> on.
\<close>

function chunks_from :: "pystr list \<Rightarrow> nat \<Rightarrow> nat \<Rightarrow> pystr list" where
  "chunks_from words max_words i =
     (if 0 < max_words \<and> i < length words
      then str_join [32] (take max_words (drop i words)) # chunks_from words max_words (i + max_words)
      else [])"
  by pat_completeness auto
termination
  by (relation "measure (\<lambda>(words, max_words, i). length words - i)") auto

declare chunks_from.simps [simp del]

definition split_text :: "pystr \<Rightarrow> int \<Rightarrow> error + pystr list" where
  "split_text t max_words =
     (let words = str_split t
      in if max_words = 0 then Inl ValueError_range_step
         else if max_words < 0 then Inr []
         else Inr (chunks_from words (nat max_words) 0))"

text \<open>\<open>[self._predict_raw([seg])[0] for seg in segments]\<close>\<close>

definition score_segment :: "classifier \<Rightarrow> pystr \<Rightarrow> error + real list" where
  "score_segment cls seg =
     (case predict_raw cls seg of None \<Rightarrow> Inl ScorerFailure | Some row \<Rightarrow> Inr row)"

text \<open>\<open>float(np.mean([seg[i] for i in self.toxic_labels]))\<close>\<close>

definition segment_toxic_score :: "classifier \<Rightarrow> real list \<Rightarrow> error + pyfloat" where
  "segment_toxic_score cls row =
     (case map_err (getitem row) (toxic_labels cls) of
        Inl e \<Rightarrow> Inl e
      | Inr ps \<Rightarrow> Inr (np_mean ps))"

text \<open>The document toxic score: \<open>max([... for seg in segment_probs])\<close>.\<close>

definition toxic_score :: "classifier \<Rightarrow> real list list \<Rightarrow> error + pyfloat" where
  "toxic_score cls segment_probs =
     (case map_err (segment_toxic_score cls) segment_probs of
        Inl e \<Rightarrow> Inl e
      | Inr scores \<Rightarrow> py_max scores)"

definition toxicity_level_of :: "config \<Rightarrow> pyfloat \<Rightarrow> string" where
  "toxicity_level_of cfg score =
     (if fge score (THRESHOLD_VERY_TOXIC cfg) then ''very_toxic''
      else if fge score (THRESHOLD_SLIGHTLY_TOXIC cfg) then ''slightly_toxic''
      else ''non_toxic'')"

definition prediction_of :: "config \<Rightarrow> pyfloat \<Rightarrow> string" where
  "prediction_of cfg score =
     (if fge score (ARTICLE_THRESHOLD cfg) then ''toxic'' else ''non_toxic'')"

text \<open>
  The per-label means: a dictionary comprehension over \<open>range(len(self.id2label))\<close>, in
  insertion order; a label name that occurs twice keeps its first position and its last
  value.
\<close>

definition label_mean :: "real list list \<Rightarrow> nat \<Rightarrow> error + pyfloat" where
  "label_mean segment_probs i =
     (case map_err (\<lambda>row. getitem row i) segment_probs of
        Inl e \<Rightarrow> Inl e
      | Inr ps \<Rightarrow> Inr (fround 3 (np_mean ps)))"

definition per_label_of :: "classifier \<Rightarrow> real list list \<Rightarrow> error + (string \<times> pyfloat) list" where
  "per_label_of cls segment_probs =
     (case map_err (label_mean segment_probs) [0 ..< length (id2label cls)] of
        Inl e \<Rightarrow> Inl e
      | Inr ms \<Rightarrow> Inr (foldl (\<lambda>d (name, m). AList.update name m d) [] (zip (id2label cls) ms)))"

record prediction_result =
  prediction :: string
  confidence :: pyfloat
  toxicity_level :: string
  per_label :: "(string \<times> pyfloat) list"

text \<open>\<open>ToxicityClassifier.predict\<close>, with the default \<open>max_words = 100\<close> of \<open>_split_text\<close>.\<close>

definition predict :: "config \<Rightarrow> classifier \<Rightarrow> pystr \<Rightarrow> error + prediction_result" where
  "predict cfg cls t =
     (case split_text t 100 of
        Inl e \<Rightarrow> Inl e
      | Inr segments \<Rightarrow>
     (case map_err (score_segment cls) segments of
        Inl e \<Rightarrow> Inl e
      | Inr segment_probs \<Rightarrow>
     (case toxic_score cls segment_probs of
        Inl e \<Rightarrow> Inl e
      | Inr score \<Rightarrow>
     (case per_label_of cls segment_probs of
        Inl e \<Rightarrow> Inl e
      | Inr pl \<Rightarrow>
          Inr \<lparr>prediction = prediction_of cfg score,
               confidence = fround 3 score,
               toxicity_level = toxicity_level_of cfg score,
               per_label = pl\<rparr>))))"

section \<open>The prediction service (\<open>analytics/analytics.py\<close>)\<close>

text \<open>
  An article as read from the \<open>articles\<close> collection, after the defaults of
  \<open>article.get(key, "")\<close> have been applied.
\<close>

record article =
  a_id :: nat
  a_url :: pystr
  a_title :: pystr
  a_content :: pystr
  a_site :: pystr

text \<open>
  A document of the \<open>predictions\<close> collection. The single-text entry point writes no
  \<open>site\<close>, \<open>title\<close> or \<open>article_id\<close> and may have no \<open>url\<close>. The timestamp
  \<open>predicted_at\<close> and the identifier that the database assigns are left out.
\<close>

record prediction_doc =
  d_url :: "pystr option"
  d_site :: "pystr option"
  d_title :: "pystr option"
  d_text :: pystr
  d_prediction :: string
  d_confidence :: pyfloat
  d_toxicity_level :: string
  d_article_id :: "nat option"

text \<open>
  The \<open>predictions\<close> collection is the list of its documents. Whether the database takes
  a document (unique index on \<open>url\<close>, connection) is a parameter \<open>accepts\<close>; a refused
  \<open>insert_one\<close> raises and leaves the collection as it was.
\<close>

type_synonym collection = "prediction_doc list"

definition insert_one ::
  "(collection \<Rightarrow> prediction_doc \<Rightarrow> bool) \<Rightarrow> collection \<Rightarrow> prediction_doc \<Rightarrow> error + collection" where
  "insert_one accepts db doc = (if accepts db doc then Inr (db @ [doc]) else Inl PersistenceFailure)"

text \<open>The unique index on \<open>url\<close> that \<open>_create_indexes\<close> asks for.\<close>

definition unique_url :: "collection \<Rightarrow> prediction_doc \<Rightarrow> bool" where
  "unique_url db doc \<longleftrightarrow> d_url doc \<notin> set (map d_url db)"

subsection \<open>\<open>predict_text\<close>\<close>

datatype error_field =
    EmptyTextMessage          \<comment> \<open>the literal \<open>"Le texte ne peut pas etre vide"\<close> (with a circumflex)\<close>
  | ExceptionText error       \<comment> \<open>\<open>str(e)\<close>\<close>

text \<open>The returned dictionary; a key that is absent is \<open>None\<close>, except \<open>prediction\<close>, which
  is always present and is Python's \<open>None\<close> in the error result.\<close>

record text_result =
  r_success :: "bool option"
  r_error :: "error_field option"
  r_prediction :: "prediction_doc option"

text \<open>
  The result is paired with the collection afterwards. An exception of the classifier is
  not caught here.
\<close>

definition predict_text ::
  "config \<Rightarrow> classifier \<Rightarrow> (collection \<Rightarrow> prediction_doc \<Rightarrow> bool) \<Rightarrow> collection \<Rightarrow>
   pystr \<Rightarrow> pystr option \<Rightarrow> (error + text_result) \<times> collection" where
  "predict_text cfg cls accepts db t url =
     (if is_blank t
      then (Inr \<lparr>r_success = None, r_error = Some EmptyTextMessage, r_prediction = None\<rparr>, db)
      else
        (case predict cfg cls t of
           Inl e \<Rightarrow> (Inl e, db)
         | Inr result \<Rightarrow>
             (let prediction_doc =
                    \<lparr>d_url = url, d_site = None, d_title = None, d_text = take 1000 t,
                     d_prediction = prediction result, d_confidence = confidence result,
                     d_toxicity_level = toxicity_level result, d_article_id = None\<rparr>
              in case insert_one accepts db prediction_doc of
                   Inr db' \<Rightarrow>
                     (Inr \<lparr>r_success = Some True, r_error = None,
                           r_prediction = Some prediction_doc\<rparr>, db')
                 | Inl e \<Rightarrow>
                     (Inr \<lparr>r_success = Some False, r_error = Some (ExceptionText e),
                           r_prediction = Some prediction_doc\<rparr>, db))))"

subsection \<open>\<open>predict_all_articles\<close>\<close>

text \<open>The counters are a dictionary keyed by strings, in insertion order.\<close>

type_synonym stats = "(string \<times> nat) list"

definition init_stats :: stats where
  "init_stats =
     [(''processed'', 0), (''success'', 0), (''errors'', 0), (''toxic'', 0),
      (''non_toxic'', 0), (''slightly_toxic'', 0), (''very_toxic'', 0)]"

text \<open>\<open>stats[key] += 1\<close>\<close>

definition incr :: "string \<Rightarrow> stats \<Rightarrow> error + stats" where
  "incr key st =
     (case map_of st key of
        None \<Rightarrow> Inl KeyError
      | Some v \<Rightarrow> Inr (AList.update key (v + 1) st))"

text \<open>
  The statements of the \<open>try\<close> block after \<open>insert_one\<close>: the counters as far as they were
  changed, and the exception that stopped the block, if any.
\<close>

definition count_success :: "stats \<Rightarrow> prediction_result \<Rightarrow> stats \<times> error option" where
  "count_success st result =
     (case incr ''success'' st of
        Inl e \<Rightarrow> (st, Some e)
      | Inr st1 \<Rightarrow>
     (case incr (toxicity_level result) st1 of
        Inl e \<Rightarrow> (st1, Some e)
      | Inr st2 \<Rightarrow>
     (case incr (if prediction result = ''toxic'' then ''toxic'' else ''non_toxic'') st2 of
        Inl e \<Rightarrow> (st2, Some e)
      | Inr st3 \<Rightarrow> (st3, None))))"

text \<open>
  The \<open>try\<close> / \<open>except Exception\<close> statement: any exception of the block is answered by
  \<open>stats["errors"] += 1\<close>.
\<close>

definition store_prediction ::
  "(collection \<Rightarrow> prediction_doc \<Rightarrow> bool) \<Rightarrow> stats \<Rightarrow> collection \<Rightarrow> prediction_doc \<Rightarrow>
   prediction_result \<Rightarrow> (error + stats) \<times> collection" where
  "store_prediction accepts st db doc result =
     (case insert_one accepts db doc of
        Inl e \<Rightarrow> (incr ''errors'' st, db)
      | Inr db' \<Rightarrow>
          (case count_success st result of
             (st', None) \<Rightarrow> (Inr st', db')
           | (st', Some e) \<Rightarrow> (incr ''errors'' st', db')))"

text \<open>
  One iteration of the loop over the articles. The call of \<open>self.classifier.predict\<close>
  stands before the \<open>try\<close> block, so what it raises leaves the loop.
\<close>

definition process_article ::
  "config \<Rightarrow> classifier \<Rightarrow> (collection \<Rightarrow> prediction_doc \<Rightarrow> bool) \<Rightarrow> stats \<Rightarrow> collection \<Rightarrow>
   article \<Rightarrow> (error + stats) \<times> collection" where
  "process_article cfg cls accepts st db article =
     (let url = a_url article; title = a_title article;
          content = a_content article; site = a_site article
      in if is_blank content then (incr ''processed'' st, db)
         else
           (case predict cfg cls content of
              Inl e \<Rightarrow> (Inl e, db)
            | Inr result \<Rightarrow>
                (let prediction_doc =
                       \<lparr>d_url = Some url, d_site = Some site, d_title = Some title,
                        d_text = take 1000 content,
                        d_prediction = prediction result, d_confidence = confidence result,
                        d_toxicity_level = toxicity_level result,
                        d_article_id = Some (a_id article)\<rparr>
                 in case store_prediction accepts st db prediction_doc result of
                      (Inl e, db') \<Rightarrow> (Inl e, db')
                    | (Inr st', db') \<Rightarrow> (incr ''processed'' st', db'))))"

fun articles_loop ::
  "config \<Rightarrow> classifier \<Rightarrow> (collection \<Rightarrow> prediction_doc \<Rightarrow> bool) \<Rightarrow> stats \<Rightarrow> collection \<Rightarrow>
   article list \<Rightarrow> (error + stats) \<times> collection" where
  "articles_loop cfg cls accepts st db [] = (Inr st, db)"
| "articles_loop cfg cls accepts st db (article # rest) =
     (case process_article cfg cls accepts st db article of
        (Inl e, db') \<Rightarrow> (Inl e, db')
      | (Inr st', db') \<Rightarrow> articles_loop cfg cls accepts st' db' rest)"

text \<open>
  \<open>predict_all_articles\<close>: the outcome is the summary that \<open>_print_analysis_summary\<close>
  prints (the counters), \<open>None\<close> when there is no article and nothing is summarised, or the
  exception that ended the run; with it, the \<open>predictions\<close> collection afterwards.
\<close>

definition predict_all_articles ::
  "config \<Rightarrow> classifier \<Rightarrow> (collection \<Rightarrow> prediction_doc \<Rightarrow> bool) \<Rightarrow> collection \<Rightarrow>
   article list \<Rightarrow> (error + stats option) \<times> collection" where
  "predict_all_articles cfg cls accepts db articles_list =
     (if length articles_list = 0 then (Inr None, db)
      else
        (case articles_loop cfg cls accepts init_stats db articles_list of
           (Inl e, db') \<Rightarrow> (Inl e, db')
         | (Inr st, db') \<Rightarrow> (Inr (Some st), db')))"

subsection \<open>\<open>get_statistics_by_site\<close>\<close>

text \<open>
  The aggregation pipeline runs in the database: one result per pair of site and
  toxicity level that occurs, with the number of documents that have it. The \<open>_id\<close> of
  a result is a document with the keys \<open>site\<close> and \<open>toxicity_level\<close>; for the documents
  without a \<open>site\<close> field the key \<open>site\<close> is absent from it, which is \<open>None\<close> here. The
  database fixes no order of the groups.
\<close>

type_synonym site = pystr
type_synonym group_id = "pystr option \<times> string"
type_synonym group_result = "group_id \<times> nat"

definition group_key :: "prediction_doc \<Rightarrow> group_id" where
  "group_key d = (d_site d, d_toxicity_level d)"

definition aggregate :: "collection \<Rightarrow> group_result list" where
  "aggregate db =
     (let keys = map group_key db in map (\<lambda>k. (k, count_list keys k)) (remdups keys))"

type_synonym counts = "(string \<times> nat) list"

definition init_counts :: counts where
  "init_counts = [(''total'', 0), (''non_toxic'', 0), (''slightly_toxic'', 0), (''very_toxic'', 0)]"

text \<open>\<open>d[key]\<close>\<close>

definition lookup :: "('k \<times> 'v) list \<Rightarrow> 'k \<Rightarrow> error + 'v" where
  "lookup d key = (case map_of d key of None \<Rightarrow> Inl KeyError | Some v \<Rightarrow> Inr v)"

text \<open>
  The body of the first loop, for one group. \<open>res["_id"]["site"]\<close> raises \<open>KeyError\<close> when
  the \<open>_id\<close> has no key \<open>site\<close>.
\<close>

definition add_group ::
  "(site \<times> counts) list \<Rightarrow> group_result \<Rightarrow> error + (site \<times> counts) list" where
  "add_group site_stats res =
     (case fst (fst res) of
        None \<Rightarrow> Inl KeyError
      | Some site \<Rightarrow>
     (let level = snd (fst res); count = snd res;
          site_stats1 = (if map_of site_stats site = None
                         then AList.update site init_counts site_stats else site_stats)
      in case lookup site_stats1 site of
           Inl e \<Rightarrow> Inl e
         | Inr cs \<Rightarrow>
             (let cs1 = AList.update level count cs
              in case lookup cs1 ''total'' of
                   Inl e \<Rightarrow> Inl e
                 | Inr tot \<Rightarrow>
                     Inr (AList.update site (AList.update ''total'' (tot + count) cs1) site_stats1))))"

fun add_groups ::
  "(site \<times> counts) list \<Rightarrow> group_result list \<Rightarrow> error + (site \<times> counts) list" where
  "add_groups site_stats [] = Inr site_stats"
| "add_groups site_stats (res # rest) =
     (case add_group site_stats res of
        Inl e \<Rightarrow> Inl e
      | Inr site_stats' \<Rightarrow> add_groups site_stats' rest)"

record site_entry =
  total_articles :: nat
  non_toxic_count :: nat
  slightly_toxic_count :: nat
  very_toxic_count :: nat
  non_toxic_pct :: real
  slightly_toxic_pct :: real
  very_toxic_pct :: real

text \<open>The dictionary built for one site; it is built only when \<open>total > 0\<close>.\<close>

definition entry_of :: "counts \<Rightarrow> error + site_entry option" where
  "entry_of cs =
     (case lookup cs ''total'' of
        Inl e \<Rightarrow> Inl e
      | Inr tot \<Rightarrow>
          if 0 < tot then
            (case lookup cs ''non_toxic'' of Inl e \<Rightarrow> Inl e | Inr n \<Rightarrow>
            (case lookup cs ''slightly_toxic'' of Inl e \<Rightarrow> Inl e | Inr s \<Rightarrow>
            (case lookup cs ''very_toxic'' of Inl e \<Rightarrow> Inl e | Inr v \<Rightarrow>
               Inr (Some \<lparr>total_articles = tot,
                          non_toxic_count = n, slightly_toxic_count = s, very_toxic_count = v,
                          non_toxic_pct = py_round 2 (real n / real tot * 100),
                          slightly_toxic_pct = py_round 2 (real s / real tot * 100),
                          very_toxic_pct = py_round 2 (real v / real tot * 100)\<rparr>))))
          else Inr None)"

text \<open>
  The second loop, over \<open>site_stats.items()\<close>; the keys of a dictionary are distinct, so
  each assignment to \<open>stats_with_percentages[site]\<close> adds an item at the end.
\<close>

fun with_percentages :: "(site \<times> counts) list \<Rightarrow> error + (site \<times> site_entry) list" where
  "with_percentages [] = Inr []"
| "with_percentages ((site, cs) # rest) =
     (case entry_of cs of
        Inl e \<Rightarrow> Inl e
      | Inr entry \<Rightarrow>
          (case with_percentages rest of
             Inl e \<Rightarrow> Inl e
           | Inr items \<Rightarrow>
               Inr (case entry of None \<Rightarrow> items | Some en \<Rightarrow> (site, en) # items)))"

text \<open>
  \<open>get_statistics_by_site\<close> on the groups that the database returned. Saving the snapshot
  (\<open>_save_statistics\<close>) catches its own failures and does not change the result.
\<close>

definition get_statistics_by_site :: "group_result list \<Rightarrow> error + (site \<times> site_entry) list" where
  "get_statistics_by_site results =
     (case add_groups [] results of
        Inl e \<Rightarrow> Inl e
      | Inr site_stats \<Rightarrow> with_percentages site_stats)"

subsection \<open>\<open>display_statistics\<close>\<close>






section \<open>Auxiliary notions for the statements\<close>



text \<open>
  Example inputs: a classifier with the labels \<open>toxic\<close> and \<open>neutral\<close> whose scorer gives
  \<open>"hi"\<close> the toxic probability 0.1, raises on \<open>"x"\<close> and gives every other segment 0.8;
  and an article with a given identifier and content.
\<close>

definition example_classifier :: classifier where
  "example_classifier =
     \<lparr>id2label = [''toxic'', ''neutral''], toxic_labels = [0],
      predict_raw = (\<lambda>seg. if seg = [104, 105] then Some [1/10, 9/10]
                           else if seg = [120] then None
                           else Some [8/10, 2/10])\<rparr>"

definition example_article :: "nat \<Rightarrow> pystr \<Rightarrow> article" where
  "example_article n c =
     \<lparr>a_id = n, a_url = [117, n], a_title = [116], a_content = c, a_site = [115]\<rparr>"

text \<open>
  Reading a counter of the batch summary, the keys of the summary, and the three
  toxicity levels.
\<close>

definition counter :: "stats \<Rightarrow> string \<Rightarrow> nat" where
  "counter st key = (case map_of st key of Some v \<Rightarrow> v | None \<Rightarrow> 0)"

definition stat_keys :: "string list" where
  "stat_keys = [''processed'', ''success'', ''errors'', ''toxic'', ''non_toxic'',
                ''slightly_toxic'', ''very_toxic'']"

definition levels :: "string set" where
  "levels = {''non_toxic'', ''slightly_toxic'', ''very_toxic''}"

text \<open>The keys of a site's dictionary of counts.\<close>

definition count_keys :: "string list" where
  "count_keys = [''total'', ''non_toxic'', ''slightly_toxic'', ''very_toxic'']"

text \<open>
  The count that the groups \<open>ps\<close> give for a site and a level (0 when there is no such
  group), and the invariant of the first loop of \<open>get_statistics_by_site\<close> after the
  groups \<open>ps\<close>: the sites seen so far are the keys, and each site's dictionary has the four
  keys, the counts of its groups and their sum as total.
\<close>

definition group_count :: "group_result list \<Rightarrow> site \<Rightarrow> string \<Rightarrow> nat" where
  "group_count ps s l = (case map_of ps (Some s, l) of Some c \<Rightarrow> c | None \<Rightarrow> 0)"

definition good_counts :: "group_result list \<Rightarrow> site \<Rightarrow> counts \<Rightarrow> bool" where
  "good_counts ps s cs \<longleftrightarrow>
     map fst cs = count_keys \<and>
     counter cs ''non_toxic'' = group_count ps s ''non_toxic'' \<and>
     counter cs ''slightly_toxic'' = group_count ps s ''slightly_toxic'' \<and>
     counter cs ''very_toxic'' = group_count ps s ''very_toxic'' \<and>
     counter cs ''total'' =
       group_count ps s ''non_toxic'' + group_count ps s ''slightly_toxic'' +
       group_count ps s ''very_toxic''"

definition stats_inv :: "group_result list \<Rightarrow> (site \<times> counts) list \<Rightarrow> bool" where
  "stats_inv ps ss \<longleftrightarrow>
     dom (map_of ss) = {s. Some s \<in> fst ` fst ` set ps} \<and>
     (\<forall>s cs. map_of ss s = Some cs \<longrightarrow> good_counts ps s cs)"

text \<open>
  What the statistics of one site are to satisfy with respect to the documents of the
  collection: the counts are the numbers of the site's documents of each level and add
  up to the total, which is positive; each percentage is the count divided by the total
  times 100, rounded to 2 decimals; the percentages add up to 100 within three
  rounding errors of half a hundredth.
\<close>

definition entry_consistent :: "collection \<Rightarrow> site \<Rightarrow> site_entry \<Rightarrow> bool" where
  "entry_consistent db s en \<longleftrightarrow>
     non_toxic_count en + slightly_toxic_count en + very_toxic_count en = total_articles en \<and>
     0 < total_articles en \<and>
     total_articles en = length (filter (\<lambda>d. d_site d = Some s) db) \<and>
     non_toxic_count en =
       length (filter (\<lambda>d. d_site d = Some s \<and> d_toxicity_level d = ''non_toxic'') db) \<and>
     slightly_toxic_count en =
       length (filter (\<lambda>d. d_site d = Some s \<and> d_toxicity_level d = ''slightly_toxic'') db) \<and>
     very_toxic_count en =
       length (filter (\<lambda>d. d_site d = Some s \<and> d_toxicity_level d = ''very_toxic'') db) \<and>
     non_toxic_pct en = py_round 2 (real (non_toxic_count en) / real (total_articles en) * 100) \<and>
     slightly_toxic_pct en =
       py_round 2 (real (slightly_toxic_count en) / real (total_articles en) * 100) \<and>
     very_toxic_pct en = py_round 2 (real (very_toxic_count en) / real (total_articles en) * 100) \<and>
     \<bar>non_toxic_pct en + slightly_toxic_pct en + very_toxic_pct en - 100\<bar> \<le> 15/1000"

text \<open>
  Example documents, a collection, a collection with a document that has no site (as
  \<open>predict_text\<close> writes them), and groups as the database may return them.
\<close>

definition example_doc :: "pystr \<Rightarrow> string \<Rightarrow> prediction_doc" where
  "example_doc s l =
     \<lparr>d_url = None, d_site = Some s, d_title = None, d_text = [], d_prediction = ''non_toxic'',
      d_confidence = Num 0, d_toxicity_level = l, d_article_id = None\<rparr>"

definition example_db :: collection where
  "example_db =
     [example_doc [65] ''non_toxic'', example_doc [66] ''non_toxic'',
      example_doc [65] ''slightly_toxic'', example_doc [65] ''very_toxic'']"

definition example_db_siteless :: collection where
  "example_db_siteless =
     [example_doc [65] ''non_toxic'', (example_doc [] ''non_toxic'')\<lparr>d_site := None\<rparr>]"

definition example_results :: "group_result list" where
  "example_results =
     [((Some [65], ''very_toxic''), 1), ((Some [65], ''non_toxic''), 1),
      ((Some [66], ''non_toxic''), 1), ((Some [65], ''slightly_toxic''), 1)]"


text \<open>A word: a non-empty run of code points none of which is whitespace.\<close>

definition is_word :: "pystr \<Rightarrow> bool" where
  "is_word w \<longleftrightarrow> w \<noteq> [] \<and> (\<forall>c\<in>set w. \<not> is_space c)"


section \<open>Properties of the segment splitter\<close>

lemma split_acc_word:
  "\<forall>c\<in>set w. \<not> is_space c \<Longrightarrow> split_acc cur (w @ rest) = split_acc (rev w @ cur) rest"
  by (induction w arbitrary: cur) auto

lemma split_acc_good:
  "\<forall>c\<in>set cur. \<not> is_space c \<Longrightarrow> \<forall>w\<in>set (split_acc cur t). is_word w"
proof (induction t arbitrary: cur)
  case Nil
  then show ?case by (simp add: is_word_def)
next
  case (Cons c cs)
  show ?case
  proof (cases "is_space c")
    case True
    have "\<forall>w\<in>set (split_acc [] cs). is_word w" using Cons.IH [of "[]"] by simp
    with True Cons.prems show ?thesis by (simp add: is_word_def)
  next
    case False
    with Cons.prems have "\<forall>a\<in>set (c # cur). \<not> is_space a" by simp
    from Cons.IH [OF this] False show ?thesis by simp
  qed
qed

lemma str_split_words: "w \<in> set (str_split t) \<Longrightarrow> is_word w"
  unfolding str_split_def using split_acc_good [of "[]" t] by simp

lemma space_32: "is_space 32"
  by (simp add: is_space_def)

lemma split_acc_empty_iff: "split_acc cur t = [] \<longleftrightarrow> cur = [] \<and> (\<forall>c\<in>set t. is_space c)"
  by (induction t arbitrary: cur) simp_all


lemma str_join_Cons: "ws \<noteq> [] \<Longrightarrow> str_join sep (w # ws) = w @ sep @ str_join sep ws"
  by (cases ws) simp_all

lemma str_split_join:
  "\<forall>w\<in>set ws. is_word w \<Longrightarrow> str_split (str_join [32] ws) = ws"
proof (induction ws)
  case Nil
  then show ?case by (simp add: str_split_def)
next
  case (Cons w ws)
  have w: "\<forall>c\<in>set w. \<not> is_space c" "w \<noteq> []" using Cons.prems by (simp_all add: is_word_def)
  show ?case
  proof (cases "ws = []")
    case True
    then show ?thesis using split_acc_word [OF w(1), of "[]" "[]"] w(2) by (simp add: str_split_def)
  next
    case False
    have "split_acc [] (w @ 32 # str_join [32] ws) = split_acc (rev w) (32 # str_join [32] ws)"
      using split_acc_word [OF w(1), of "[]" "32 # str_join [32] ws"] by simp
    also have "\<dots> = w # split_acc [] (str_join [32] ws)"
      using w(2) by (simp add: space_32)
    also have "\<dots> = w # ws" using Cons by (simp add: str_split_def)
    finally show ?thesis using False by (simp add: str_split_def str_join_Cons)
  qed
qed

lemma str_join_append:
  "xs \<noteq> [] \<Longrightarrow> ys \<noteq> [] \<Longrightarrow> str_join s (xs @ ys) = str_join s xs @ s @ str_join s ys"
proof (induction xs)
  case Nil
  then show ?case by simp
next
  case (Cons x xs)
  show ?case
  proof (cases "xs = []")
    case True
    with Cons.prems show ?thesis by (simp add: str_join_Cons)
  next
    case False
    with Cons show ?thesis by (simp add: str_join_Cons)
  qed
qed

lemma str_join_take_drop:
  assumes "0 < k" "k < length xs"
  shows "str_join s (take k xs) @ s @ str_join s (drop k xs) = str_join s xs"
proof -
  have "take k xs \<noteq> []" "drop k xs \<noteq> []" using assms by auto
  from str_join_append [OF this, of s] show ?thesis by simp
qed


lemma chunks_from_concat:
  "0 < k \<Longrightarrow> \<forall>w\<in>set ws. is_word w \<Longrightarrow> concat (map str_split (chunks_from ws k i)) = drop i ws"
proof (induction ws k i rule: chunks_from.induct)
  case (1 ws k i)
  show ?case
  proof (cases "i < length ws")
    case True
    have "\<forall>w\<in>set (take k (drop i ws)). is_word w"
      using "1.prems"(2) by (meson in_set_dropD in_set_takeD)
    then have a: "str_split (str_join [32] (take k (drop i ws))) = take k (drop i ws)"
      by (rule str_split_join)
    have b: "concat (map str_split (chunks_from ws k (i + k))) = drop (i + k) ws"
      using "1.IH" "1.prems" True by simp
    have "take k (drop i ws) @ drop (i + k) ws = drop i ws"
      by (metis add.commute append_take_drop_id drop_drop)
    with a b True "1.prems"(1) show ?thesis
      by (subst chunks_from.simps) simp
  next
    case False
    then show ?thesis by (subst chunks_from.simps) simp
  qed
qed

lemma chunks_from_sizes:
  "0 < k \<Longrightarrow> \<forall>w\<in>set ws. is_word w \<Longrightarrow> c \<in> set (chunks_from ws k i) \<Longrightarrow>
     1 \<le> length (str_split c) \<and> length (str_split c) \<le> k"
proof (induction ws k i rule: chunks_from.induct)
  case (1 ws k i)
  show ?case
  proof (cases "i < length ws")
    case True
    have "\<forall>w\<in>set (take k (drop i ws)). is_word w"
      using "1.prems"(2) by (meson in_set_dropD in_set_takeD)
    then have a: "str_split (str_join [32] (take k (drop i ws))) = take k (drop i ws)"
      by (rule str_split_join)
    from "1.prems"(3) True "1.prems"(1)
    have "c = str_join [32] (take k (drop i ws)) \<or> c \<in> set (chunks_from ws k (i + k))"
      by (subst (asm) chunks_from.simps) simp
    then show ?thesis
    proof
      assume "c = str_join [32] (take k (drop i ws))"
      with a True "1.prems"(1) show ?thesis by simp
    next
      assume "c \<in> set (chunks_from ws k (i + k))"
      with "1.IH" "1.prems" True show ?thesis by simp
    qed
  next
    case False
    with "1.prems"(3) show ?thesis by (subst (asm) chunks_from.simps) simp
  qed
qed

lemma ceil_step:
  assumes "0 < k" "0 < m"
  shows "Suc ((m - k + k - 1) div k) = (m + k - 1) div (k::nat)"
proof (cases "k \<le> m")
  case True
  then have "m + k - 1 = (m - k + k - 1) + k" using assms by simp
  then have "(m + k - 1) div k = (m - k + k - 1) div k + 1"
    using assms(1) by (metis div_add_self2 less_numeral_extra(3))
  then show ?thesis by simp
next
  case False
  then have "(m - k + k - 1) div k = 0" using assms by simp
  moreover have "(m + k - 1) div k = 1"
  proof -
    have "m + k - 1 = (m - 1) + k" using assms by simp
    moreover have "(m - 1) div k = 0" using False assms by simp
    ultimately show ?thesis using assms(1) by (metis add_cancel_left_left div_add_self2 less_numeral_extra(3))
  qed
  ultimately show ?thesis by simp
qed

lemma chunks_from_length:
  "0 < k \<Longrightarrow> length (chunks_from ws k i) = (length ws - i + k - 1) div k"
proof (induction ws k i rule: chunks_from.induct)
  case (1 ws k i)
  show ?case
  proof (cases "i < length ws")
    case True
    have "length (chunks_from ws k i) = Suc (length (chunks_from ws k (i + k)))"
      using True "1.prems" by (subst chunks_from.simps) simp
    also have "\<dots> = Suc ((length ws - (i + k) + k - 1) div k)"
      using "1.IH" True "1.prems" by simp
    also have "\<dots> = Suc (((length ws - i) - k + k - 1) div k)"
      by simp
    also have "\<dots> = (length ws - i + k - 1) div k"
      using ceil_step [of k "length ws - i"] True "1.prems" by simp
    finally show ?thesis .
  next
    case False
    then have "length (chunks_from ws k i) = 0" by (subst chunks_from.simps) simp
    moreover have "(length ws - i + k - 1) div k = 0" using False "1.prems" by simp
    ultimately show ?thesis by simp
  qed
qed

lemma chunks_from_nonempty:
  "c \<in> set (chunks_from ws k i) \<Longrightarrow> \<exists>j. j < length ws \<and> c = str_join [32] (take k (drop j ws))"
proof (induction ws k i rule: chunks_from.induct)
  case (1 ws k i)
  show ?case
  proof (cases "0 < k \<and> i < length ws")
    case True
    from "1.prems" True
    have "c = str_join [32] (take k (drop i ws)) \<or> c \<in> set (chunks_from ws k (i + k))"
      by (subst (asm) chunks_from.simps) simp
    then show ?thesis using "1.IH" True by blast
  next
    case False
    with "1.prems" show ?thesis by (subst (asm) chunks_from.simps) simp
  qed
qed

lemma chunks_from_join:
  "0 < k \<Longrightarrow> str_join [32] (chunks_from ws k i) = str_join [32] (drop i ws)"
proof (induction ws k i rule: chunks_from.induct)
  case (1 ws k i)
  show ?case
  proof (cases "i < length ws")
    case True
    have unf: "chunks_from ws k i = str_join [32] (take k (drop i ws)) # chunks_from ws k (i + k)"
      using True "1.prems" by (subst chunks_from.simps) simp
    have ih: "str_join [32] (chunks_from ws k (i + k)) = str_join [32] (drop (i + k) ws)"
      using "1.IH" True "1.prems" by simp
    show ?thesis
    proof (cases "i + k < length ws")
      case lt: True
      then have ne: "chunks_from ws k (i + k) \<noteq> []"
        using "1.prems" by (subst chunks_from.simps) simp
      have "str_join [32] (chunks_from ws k i) =
            str_join [32] (take k (drop i ws)) @ [32] @ str_join [32] (drop k (drop i ws))"
        using unf ne ih by (simp add: str_join_Cons add.commute)
      also have "\<dots> = str_join [32] (drop i ws)"
        using str_join_take_drop [of k "drop i ws" "[32]"] lt "1.prems" by simp
      finally show ?thesis .
    next
      case ge: False
      then have "chunks_from ws k (i + k) = []" by (subst chunks_from.simps) simp
      with unf ge show ?thesis by simp
    qed
  next
    case False
    then show ?thesis by (subst chunks_from.simps) simp
  qed
qed

lemma ceiling_div_nat:
  assumes "0 < k"
  shows "\<lceil>real n / real k\<rceil> = int ((n + k - 1) div k)"
proof (rule ceiling_unique)
  let ?q = "(n + k - 1) div k"
  have k: "0 < real k" using assms by simp
  have "n \<le> ?q * k"
  proof -
    have "n + k - 1 < (?q + 1) * k"
      using assms by (metis Suc_eq_plus1 dividend_less_div_times mult.commute add.commute mult_Suc)
    then show ?thesis by simp
  qed
  then have "real n \<le> real ?q * real k" by (metis of_nat_le_iff of_nat_mult)
  then show "real n / real k \<le> of_int (int ?q)" using k by (simp add: pos_divide_le_eq)
  have "?q * k \<le> n + k - 1" by simp
  then have "?q * k < n + k" using assms by linarith
  then have "real ?q * real k < real n + real k" by (metis of_nat_less_iff of_nat_mult of_nat_add)
  then have "(real ?q - 1) * real k < real n" by (simp add: algebra_simps)
  then show "of_int (int ?q) - 1 < real n / real k" using k by (simp add: pos_less_divide_eq)
qed


text \<open>
  Claim C6. For every text and every positive \<open>max_words = k\<close>, \<open>_split_text\<close> returns chunks
  such that: each chunk holds at least one and at most \<open>k\<close> whitespace-separated words;
  splitting the chunks one after the other gives back exactly the words of the text, in
  order (no word split, duplicated or dropped); joining the chunks with single spaces and
  splitting again gives the words of the text; the number of chunks is the ceiling of
  \<open>word_count / k\<close>; and a text that is empty or all whitespace gives no chunk.
\<close>

theorem split_text_partition:
  assumes "0 < k"
  shows "\<exists>chunks. split_text t k = Inr chunks \<and>
     (\<forall>c\<in>set chunks. 1 \<le> length (str_split c) \<and> int (length (str_split c)) \<le> k) \<and>
     concat (map str_split chunks) = str_split t \<and>
     str_split (str_join [32] chunks) = str_split t \<and>
     int (length chunks) = \<lceil>real (length (str_split t)) / real_of_int k\<rceil> \<and>
     ((\<forall>c\<in>set t. is_space c) \<longrightarrow> chunks = [])"
proof -
  let ?ws = "str_split t"
  let ?k = "nat k"
  let ?chunks = "chunks_from ?ws ?k 0"
  have k: "0 < ?k" using assms by simp
  have words: "\<forall>w\<in>set ?ws. is_word w" using str_split_words by blast
  have ret: "split_text t k = Inr ?chunks"
    using assms by (simp add: split_text_def)
  have sizes: "\<forall>c\<in>set ?chunks. 1 \<le> length (str_split c) \<and> int (length (str_split c)) \<le> k"
  proof
    fix c assume "c \<in> set ?chunks"
    from chunks_from_sizes [OF k words this] assms
    show "1 \<le> length (str_split c) \<and> int (length (str_split c)) \<le> k" by linarith
  qed
  have cat: "concat (map str_split ?chunks) = ?ws"
    using chunks_from_concat [OF k words, of 0] by simp
  have "str_join [32] ?chunks = str_join [32] ?ws"
    using chunks_from_join [OF k, of ?ws 0] by simp
  then have rejoin: "str_split (str_join [32] ?chunks) = ?ws"
    using str_split_join [OF words] by simp
  have "int (length ?chunks) = int ((length ?ws + ?k - 1) div ?k)"
    using chunks_from_length [OF k, of ?ws 0] by simp
  also have "\<dots> = \<lceil>real (length ?ws) / real ?k\<rceil>"
    using ceiling_div_nat [OF k] by simp
  also have "real ?k = real_of_int k" using assms by simp
  finally have count: "int (length ?chunks) = \<lceil>real (length ?ws) / real_of_int k\<rceil>" .
  have blank: "(\<forall>c\<in>set t. is_space c) \<longrightarrow> ?chunks = []"
  proof
    assume "\<forall>c\<in>set t. is_space c"
    then have "?ws = []" using split_acc_empty_iff [of "[]" t] by (simp add: str_split_def)
    then show "?chunks = []" by (subst chunks_from.simps) simp
  qed
  from ret sizes cat rejoin count blank show ?thesis by blast
qed

text \<open>
  The text \<open>"a bc  d"\<close> with \<open>max_words = 2\<close> gives the chunks \<open>"a bc"\<close> and \<open>"d"\<close>; the text
  \<open>" \t"\<close> gives none.
\<close>

theorem split_text_partition_witness:
  "(0::int) < 2 \<and> split_text [97, 32, 98, 99, 32, 32, 100] 2 = Inr [[97, 32, 98, 99], [100]] \<and>
   str_split [97, 32, 98, 99, 32, 32, 100] = [[97], [98, 99], [100]] \<and>
   is_space 32 \<and> is_space 9 \<and> split_text [32, 9] 2 = Inr []"
proof -
  have w: "str_split [97, 32, 98, 99, 32, 32, 100] = [[97], [98, 99], [100]]"
    by (simp add: str_split_def is_space_def)
  have s: "\<forall>c\<in>set [32, 9 :: nat]. is_space c"
    by (simp add: is_space_def)
  from split_text_partition [of 2 "[97, 32, 98, 99, 32, 32, 100]"]
  obtain chunks where c: "split_text [97, 32, 98, 99, 32, 32, 100] 2 = Inr chunks"
    "concat (map str_split chunks) = str_split [97, 32, 98, 99, 32, 32, 100]"
    by auto
  have v: "split_text [97, 32, 98, 99, 32, 32, 100] 2 = Inr [[97, 32, 98, 99], [100]]"
    using c(1) w by (simp add: split_text_def chunks_from.simps)
  from split_text_partition [of 2 "[32, 9]"] s
  have "split_text [32, 9] 2 = Inr []" by auto
  moreover have "is_space 32 \<and> is_space 9" by (simp add: is_space_def)
  ultimately show ?thesis using w v by simp
qed


section \<open>Properties of the classifier\<close>


lemma map_err_nil_iff: "map_err f xs = Inr [] \<longleftrightarrow> xs = []"
  by (cases xs) (simp_all split: sum.splits)

lemma map_err_length: "map_err f xs = Inr ys \<Longrightarrow> length ys = length xs"
  by (induction xs arbitrary: ys) (auto split: sum.splits)






lemma predict_Inr_D:
  assumes "predict cfg cls t = Inr r"
  shows "\<exists>segments rows score pl.
           split_text t 100 = Inr segments \<and>
           map_err (score_segment cls) segments = Inr rows \<and>
           toxic_score cls rows = Inr score \<and>
           per_label_of cls rows = Inr pl \<and>
           r = \<lparr>prediction = prediction_of cfg score, confidence = fround 3 score,
                toxicity_level = toxicity_level_of cfg score, per_label = pl\<rparr>"
  using assms unfolding predict_def by (auto split: sum.splits)


lemma str_strip_empty_iff: "str_strip t = [] \<longleftrightarrow> (\<forall>c\<in>set t. is_space c)"
proof
  assume "str_strip t = []"
  then have "dropWhile is_space (rev (dropWhile is_space t)) = []"
    by (simp add: str_strip_def)
  then have "\<forall>c\<in>set (dropWhile is_space t). is_space c"
    using dropWhile_eq_Nil_conv [of is_space "rev (dropWhile is_space t)"] by simp
  then have "dropWhile is_space t = []"
    by (metis hd_dropWhile hd_in_set)
  then show "\<forall>c\<in>set t. is_space c"
    using dropWhile_eq_Nil_conv [of is_space t] by simp
next
  assume "\<forall>c\<in>set t. is_space c"
  then have "dropWhile is_space t = []" by (induction t) simp_all
  then show "str_strip t = []" unfolding str_strip_def by (simp only: rev.simps dropWhile.simps)
qed

lemma is_blank_iff: "is_blank t \<longleftrightarrow> (\<forall>c\<in>set t. is_space c)"
  by (auto simp: is_blank_def str_strip_empty_iff)

lemma str_split_empty_iff: "str_split t = [] \<longleftrightarrow> (\<forall>c\<in>set t. is_space c)"
  by (simp add: str_split_def split_acc_empty_iff)

lemma split_text_100: "split_text t 100 = Inr (chunks_from (str_split t) 100 0)"
  by (simp add: split_text_def)

lemma chunks_from_empty_iff: "0 < k \<Longrightarrow> chunks_from ws k 0 = [] \<longleftrightarrow> ws = []"
  by (subst chunks_from.simps) simp

lemma predict_blank:
  assumes "\<forall>c\<in>set t. is_space c"
  shows "predict cfg cls t = Inl ValueError_max_empty"
proof -
  have "str_split t = []" using assms by (simp add: str_split_empty_iff)
  then have "split_text t 100 = Inr []"
    by (simp add: split_text_100 chunks_from_empty_iff)
  then show ?thesis by (simp add: predict_def toxic_score_def)
qed

lemma toxic_score_max_empty:
  assumes "toxic_score cls rows = Inl ValueError_max_empty"
  shows "rows = []"
proof -
  have st: "segment_toxic_score cls row \<noteq> Inl ValueError_max_empty" for row
  proof -
    have "map_err (getitem row) is \<noteq> Inl ValueError_max_empty" for "is"
      by (induction "is") (auto simp: getitem_def split: sum.splits)
    then show ?thesis by (auto simp: segment_toxic_score_def split: sum.splits)
  qed
  have me: "map_err (segment_toxic_score cls) rs \<noteq> Inl ValueError_max_empty" for rs
    using st by (induction rs) (auto split: sum.splits)
  from assms obtain scores where "map_err (segment_toxic_score cls) rows = Inr scores"
    "py_max scores = Inl ValueError_max_empty"
    using me by (auto simp: toxic_score_def split: sum.splits)
  then have "scores = []" by (cases scores) simp_all
  with \<open>map_err (segment_toxic_score cls) rows = Inr scores\<close> show ?thesis
    by (simp add: map_err_nil_iff)
qed

lemma per_label_not_max_empty: "per_label_of cls rows \<noteq> Inl ValueError_max_empty"
proof -
  have a: "map_err (\<lambda>row. getitem row i) rs \<noteq> Inl ValueError_max_empty" for i rs
    by (induction rs) (auto simp: getitem_def split: sum.splits)
  have b: "label_mean rows i \<noteq> Inl ValueError_max_empty" for i
    using a by (auto simp: label_mean_def split: sum.splits)
  have c: "map_err (label_mean rows) js \<noteq> Inl ValueError_max_empty" for js
    using b by (induction js) (auto split: sum.splits)
  show ?thesis using c by (auto simp: per_label_of_def split: sum.splits)
qed

lemma score_segments_not_max_empty: "map_err (score_segment cls) segs \<noteq> Inl ValueError_max_empty"
  by (induction segs) (auto simp: score_segment_def split: sum.splits option.splits)

lemma predict_nonblank:
  assumes "\<not> (\<forall>c\<in>set t. is_space c)"
  shows "predict cfg cls t \<noteq> Inl ValueError_max_empty"
proof
  assume p: "predict cfg cls t = Inl ValueError_max_empty"
  have ne: "chunks_from (str_split t) 100 0 \<noteq> []"
    using assms by (simp add: chunks_from_empty_iff str_split_empty_iff)
  from p obtain rows where r: "map_err (score_segment cls) (chunks_from (str_split t) 100 0) = Inr rows"
      and "toxic_score cls rows = Inl ValueError_max_empty"
    using score_segments_not_max_empty [of cls] per_label_not_max_empty [of cls]
    by (auto simp: predict_def split_text_100 split: sum.splits)
  then have "rows = []" using toxic_score_max_empty by blast
  with r ne show False by (simp add: map_err_nil_iff)
qed

lemmas eval_predict =
  predict_def split_text_def str_split_def chunks_from.simps is_space_def
  score_segment_def toxic_score_def segment_toxic_score_def getitem_def np_mean_def
  per_label_of_def label_mean_def prediction_of_def toxicity_level_of_def default_config_def
  py_round_def round_half_even_def example_classifier_def

lemma example_predict_hi:
  "predict default_config example_classifier [104, 105] =
     Inr \<lparr>prediction = ''non_toxic'', confidence = Num (1/10), toxicity_level = ''non_toxic'',
          per_label = [(''toxic'', Num (1/10)), (''neutral'', Num (9/10))]\<rparr>"
  by (simp add: eval_predict upt_rec)

lemma example_predict_yo:
  "predict default_config example_classifier [121, 111] =
     Inr \<lparr>prediction = ''toxic'', confidence = Num (8/10), toxicity_level = ''very_toxic'',
          per_label = [(''toxic'', Num (8/10)), (''neutral'', Num (2/10))]\<rparr>"
  by (simp add: eval_predict upt_rec)

lemma example_predict_x:
  "predict default_config example_classifier [120] = Inl ScorerFailure"
  by (simp add: eval_predict)



lemma predict_level_prediction:
  assumes "predict cfg cls t = Inr r"
  shows "\<exists>segments rows score.
           split_text t 100 = Inr segments \<and> map_err (score_segment cls) segments = Inr rows \<and>
           toxic_score cls rows = Inr score \<and>
           toxicity_level r = toxicity_level_of cfg score \<and>
           prediction r = prediction_of cfg score \<and> confidence r = fround 3 score"
  using predict_Inr_D [OF assms] by force

text \<open>
  Claim C3. With the default thresholds the level is a step function of the document
  toxic score: \<open>non_toxic\<close> on \<open>[0, 0.3)\<close>, \<open>slightly_toxic\<close> on \<open>[0.3, 0.65)\<close>,
  \<open>very_toxic\<close> on \<open>[0.65, 1]\<close>; and the level that \<open>predict\<close> returns is this function
  of the score it computed.
\<close>

theorem toxicity_level_step_function:
  "(0 \<le> s \<and> s < 3/10 \<longrightarrow> toxicity_level_of default_config (Num s) = ''non_toxic'') \<and>
   (3/10 \<le> s \<and> s < 65/100 \<longrightarrow> toxicity_level_of default_config (Num s) = ''slightly_toxic'') \<and>
   (65/100 \<le> s \<and> s \<le> 1 \<longrightarrow> toxicity_level_of default_config (Num s) = ''very_toxic'') \<and>
   (predict default_config cls t = Inr r \<longrightarrow>
      (\<exists>segments rows score.
          split_text t 100 = Inr segments \<and> map_err (score_segment cls) segments = Inr rows \<and>
          toxic_score cls rows = Inr score \<and>
          toxicity_level r = toxicity_level_of default_config score))"
proof -
  have "predict default_config cls t = Inr r \<longrightarrow>
      (\<exists>segments rows score.
          split_text t 100 = Inr segments \<and> map_err (score_segment cls) segments = Inr rows \<and>
          toxic_score cls rows = Inr score \<and>
          toxicity_level r = toxicity_level_of default_config score)"
    using predict_level_prediction [of default_config cls t r] by blast
  then show ?thesis
    by (simp add: toxicity_level_of_def default_config_def)
qed

theorem toxicity_level_step_function_witness:
  "toxicity_level_of default_config (Num 0) = ''non_toxic'' \<and>
   toxicity_level_of default_config (Num (29/100)) = ''non_toxic'' \<and>
   toxicity_level_of default_config (Num (3/10)) = ''slightly_toxic'' \<and>
   toxicity_level_of default_config (Num (64/100)) = ''slightly_toxic'' \<and>
   toxicity_level_of default_config (Num (65/100)) = ''very_toxic'' \<and>
   toxicity_level_of default_config (Num 1) = ''very_toxic'' \<and>
   predict default_config example_classifier [121, 111] =
     Inr \<lparr>prediction = ''toxic'', confidence = Num (8/10), toxicity_level = ''very_toxic'',
          per_label = [(''toxic'', Num (8/10)), (''neutral'', Num (2/10))]\<rparr> \<and>
   toxic_score example_classifier [[8/10, 2/10]] = Inr (Num (8/10)) \<and>
   (\<exists>segments rows score.
      split_text [121, 111] 100 = Inr segments \<and>
      map_err (score_segment example_classifier) segments = Inr rows \<and>
      toxic_score example_classifier rows = Inr score \<and>
      ''very_toxic'' = toxicity_level_of default_config score)"
proof -
  note p = example_predict_yo
  have ts: "toxic_score example_classifier [[8/10, 2/10]] = Inr (Num (8/10))"
    by (simp add: toxic_score_def segment_toxic_score_def getitem_def np_mean_def example_classifier_def)
  from toxicity_level_step_function [of 0] toxicity_level_step_function [of "29/100"]
    toxicity_level_step_function [of "3/10"] toxicity_level_step_function [of "64/100"]
    toxicity_level_step_function [of "65/100"] toxicity_level_step_function [of 1]
  have levels: "toxicity_level_of default_config (Num 0) = ''non_toxic''"
    "toxicity_level_of default_config (Num (29/100)) = ''non_toxic''"
    "toxicity_level_of default_config (Num (3/10)) = ''slightly_toxic''"
    "toxicity_level_of default_config (Num (64/100)) = ''slightly_toxic''"
    "toxicity_level_of default_config (Num (65/100)) = ''very_toxic''"
    "toxicity_level_of default_config (Num 1) = ''very_toxic''"
    by simp_all
  from toxicity_level_step_function [where s = 0 and cls = example_classifier and t = "[121, 111]"
      and r = "\<lparr>prediction = ''toxic'', confidence = Num (8/10), toxicity_level = ''very_toxic'',
          per_label = [(''toxic'', Num (8/10)), (''neutral'', Num (2/10))]\<rparr>"] p
  have "\<exists>segments rows score.
      split_text [121, 111] 100 = Inr segments \<and>
      map_err (score_segment example_classifier) segments = Inr rows \<and>
      toxic_score example_classifier rows = Inr score \<and>
      ''very_toxic'' = toxicity_level_of default_config score"
    by simp
  with levels p ts show ?thesis by blast
qed

text \<open>
  Claim C4. With the default article threshold the prediction is \<open>toxic\<close> exactly when
  the document toxic score is at least 0.5. The prediction does not depend on the two
  level thresholds, nor the level on the article threshold; the prediction that \<open>predict\<close>
  returns is this function of the score it computed.
\<close>

theorem prediction_article_threshold:
  "(prediction_of default_config (Num s) = ''toxic'' \<longleftrightarrow> 1/2 \<le> s) \<and>
   (prediction_of default_config (Num s) = ''non_toxic'' \<longleftrightarrow> s < 1/2) \<and>
   prediction_of (cfg\<lparr>THRESHOLD_SLIGHTLY_TOXIC := a, THRESHOLD_VERY_TOXIC := b\<rparr>) score
     = prediction_of cfg score \<and>
   toxicity_level_of (cfg\<lparr>ARTICLE_THRESHOLD := c\<rparr>) score = toxicity_level_of cfg score \<and>
   (predict default_config cls t = Inr r \<longrightarrow>
      (\<exists>segments rows score'.
          split_text t 100 = Inr segments \<and> map_err (score_segment cls) segments = Inr rows \<and>
          toxic_score cls rows = Inr score' \<and>
          prediction r = prediction_of default_config score' \<and>
          (prediction r = ''toxic'' \<longleftrightarrow> fge score' (1/2))))"
proof -
  have "predict default_config cls t = Inr r \<longrightarrow>
      (\<exists>segments rows score'.
          split_text t 100 = Inr segments \<and> map_err (score_segment cls) segments = Inr rows \<and>
          toxic_score cls rows = Inr score' \<and>
          prediction r = prediction_of default_config score' \<and>
          (prediction r = ''toxic'' \<longleftrightarrow> fge score' (1/2)))"
  proof
    assume "predict default_config cls t = Inr r"
    from predict_level_prediction [OF this]
    obtain segments rows score' where a: "split_text t 100 = Inr segments"
      "map_err (score_segment cls) segments = Inr rows" "toxic_score cls rows = Inr score'"
      "prediction r = prediction_of default_config score'" by blast
    have "prediction_of default_config score' = ''toxic'' \<longleftrightarrow> fge score' (1/2)"
      by (simp add: prediction_of_def default_config_def)
    with a show "\<exists>segments rows score'.
          split_text t 100 = Inr segments \<and> map_err (score_segment cls) segments = Inr rows \<and>
          toxic_score cls rows = Inr score' \<and>
          prediction r = prediction_of default_config score' \<and>
          (prediction r = ''toxic'' \<longleftrightarrow> fge score' (1/2))" by auto
  qed
  then show ?thesis
    by (simp add: prediction_of_def toxicity_level_of_def default_config_def not_le)
qed

theorem prediction_article_threshold_witness:
  "prediction_of default_config (Num (1/2)) = ''toxic'' \<and>
   prediction_of default_config (Num (49/100)) = ''non_toxic'' \<and>
   toxicity_level_of default_config (Num (1/2)) = ''slightly_toxic'' \<and>
   toxicity_level_of default_config (Num (49/100)) = ''slightly_toxic'' \<and>
   predict default_config example_classifier [121, 111] =
     Inr \<lparr>prediction = ''toxic'', confidence = Num (8/10), toxicity_level = ''very_toxic'',
          per_label = [(''toxic'', Num (8/10)), (''neutral'', Num (2/10))]\<rparr> \<and>
   (\<exists>segments rows score'.
      split_text [121, 111] 100 = Inr segments \<and>
      map_err (score_segment example_classifier) segments = Inr rows \<and>
      toxic_score example_classifier rows = Inr score' \<and> fge score' (1/2))"
proof -
  note p = example_predict_yo
  from prediction_article_threshold [of "1/2"] prediction_article_threshold [of "49/100"]
  have a: "prediction_of default_config (Num (1/2)) = ''toxic''"
    "prediction_of default_config (Num (49/100)) = ''non_toxic''"
    by simp_all
  have b: "toxicity_level_of default_config (Num (1/2)) = ''slightly_toxic''"
    "toxicity_level_of default_config (Num (49/100)) = ''slightly_toxic''"
    by (simp_all add: toxicity_level_of_def default_config_def)
  from prediction_article_threshold [where s = 0 and cfg = default_config and a = 0 and b = 0
      and c = 0 and score = NaN and cls = example_classifier and t = "[121, 111]"
      and r = "\<lparr>prediction = ''toxic'', confidence = Num (8/10), toxicity_level = ''very_toxic'',
          per_label = [(''toxic'', Num (8/10)), (''neutral'', Num (2/10))]\<rparr>"] p
  have "\<exists>segments rows score'.
      split_text [121, 111] 100 = Inr segments \<and>
      map_err (score_segment example_classifier) segments = Inr rows \<and>
      toxic_score example_classifier rows = Inr score' \<and> fge score' (1/2)"
    by auto
  with a b p show ?thesis by blast
qed

section \<open>Empty input\<close>

lemma incr_Some:
  "map_of st k = Some v \<Longrightarrow> incr k st = Inr (AList.update k (v + 1) st)"
  by (simp add: incr_def)

lemma map_of_incr:
  "incr k st = Inr st' \<Longrightarrow> map_of st' = (map_of st)(k \<mapsto> the (map_of st k) + 1)"
  by (auto simp: incr_def update_conv' split: option.splits)

lemma predict_text_blank:
  assumes "\<forall>c\<in>set t. is_space c"
  shows "predict_text cfg cls accepts db t url =
           (Inr \<lparr>r_success = None, r_error = Some EmptyTextMessage, r_prediction = None\<rparr>, db)"
  using assms by (simp add: predict_text_def is_blank_iff)

lemma process_article_blank:
  assumes "\<forall>c\<in>set (a_content article). is_space c"
  shows "process_article cfg cls accepts st db article = (incr ''processed'' st, db)"
  using assms by (simp add: process_article_def is_blank_iff)

lemma articles_loop_all_blank:
  "\<forall>a\<in>set as. \<forall>c\<in>set (a_content a). is_space c \<Longrightarrow> map_of st ''processed'' = Some n \<Longrightarrow>
   articles_loop cfg cls accepts st db as =
     (Inr (if as = [] then st else AList.update ''processed'' (n + length as) st), db)"
proof (induction as arbitrary: st n)
  case Nil
  then show ?case by simp
next
  case (Cons a as)
  let ?st = "AList.update ''processed'' (n + 1) st"
  have step: "process_article cfg cls accepts st db a = (Inr ?st, db)"
    using Cons.prems by (simp add: process_article_blank incr_Some)
  have m: "map_of ?st ''processed'' = Some (n + 1)"
    by (simp add: update_conv')
  have "articles_loop cfg cls accepts ?st db as =
          (Inr (if as = [] then ?st else AList.update ''processed'' (n + 1 + length as) ?st), db)"
    using Cons.IH [OF _ m] Cons.prems(1) by simp
  then show ?case using step by (cases "as = []") simp_all
qed

text \<open>
  Claim C7. For a text that is empty or all whitespace, and for every classifier and
  every database: \<open>predict_text\<close> returns the error result with \<open>prediction = None\<close> and
  leaves the collection as it was; one iteration of the batch loop on an article with
  that content adds one to \<open>processed\<close>, changes no other counter and leaves the
  collection as it was; and a batch of such articles ends with \<open>processed\<close> equal to their
  number and all other counters zero.
\<close>

theorem blank_text_is_skipped:
  assumes "\<forall>c\<in>set t. is_space c"
  shows "predict_text cfg cls accepts db t url =
           (Inr \<lparr>r_success = None, r_error = Some EmptyTextMessage, r_prediction = None\<rparr>, db) \<and>
         (a_content article = t \<and> map_of st ''processed'' = Some n \<longrightarrow>
            (\<exists>st'. process_article cfg cls accepts st db article = (Inr st', db) \<and>
                   map_of st' ''processed'' = Some (n + 1) \<and>
                   (\<forall>k. k \<noteq> ''processed'' \<longrightarrow> map_of st' k = map_of st k))) \<and>
         (articles_list \<noteq> [] \<and> (\<forall>a\<in>set articles_list. a_content a = t) \<longrightarrow>
            predict_all_articles cfg cls accepts db articles_list =
              (Inr (Some (AList.update ''processed'' (length articles_list) init_stats)), db))"
proof (intro conjI impI)
  show "predict_text cfg cls accepts db t url =
           (Inr \<lparr>r_success = None, r_error = Some EmptyTextMessage, r_prediction = None\<rparr>, db)"
    using assms by (rule predict_text_blank)
next
  assume a: "a_content article = t \<and> map_of st ''processed'' = Some n"
  let ?st = "AList.update ''processed'' (n + 1) st"
  have "process_article cfg cls accepts st db article = (Inr ?st, db)"
    using a assms by (simp add: process_article_blank incr_Some)
  moreover have "map_of ?st ''processed'' = Some (n + 1)"
    by (simp add: update_conv')
  moreover have "\<forall>k. k \<noteq> ''processed'' \<longrightarrow> map_of ?st k = map_of st k"
    by (simp add: update_conv')
  ultimately show "\<exists>st'. process_article cfg cls accepts st db article = (Inr st', db) \<and>
                   map_of st' ''processed'' = Some (n + 1) \<and>
                   (\<forall>k. k \<noteq> ''processed'' \<longrightarrow> map_of st' k = map_of st k)"
    by blast
next
  assume b: "articles_list \<noteq> [] \<and> (\<forall>a\<in>set articles_list. a_content a = t)"
  have "map_of init_stats ''processed'' = Some 0" by (simp add: init_stats_def)
  moreover have "\<forall>a\<in>set articles_list. \<forall>c\<in>set (a_content a). is_space c"
    using b assms by simp
  ultimately have "articles_loop cfg cls accepts init_stats db articles_list =
      (Inr (AList.update ''processed'' (0 + length articles_list) init_stats), db)"
    using articles_loop_all_blank [of articles_list init_stats 0 cfg cls accepts db] b by simp
  then show "predict_all_articles cfg cls accepts db articles_list =
              (Inr (Some (AList.update ''processed'' (length articles_list) init_stats)), db)"
    using b by (simp add: predict_all_articles_def)
qed

theorem blank_text_is_skipped_witness:
  "is_space 32 \<and> is_space 10 \<and>
   predict_text default_config example_classifier unique_url [] [32, 10] None =
     (Inr \<lparr>r_success = None, r_error = Some EmptyTextMessage, r_prediction = None\<rparr>, []) \<and>
   a_content (example_article 1 [32, 10]) = [32, 10] \<and>
   map_of init_stats ''processed'' = Some 0 \<and>
   process_article default_config example_classifier unique_url init_stats [] (example_article 1 [32, 10]) =
     (Inr [(''processed'', 1), (''success'', 0), (''errors'', 0), (''toxic'', 0),
           (''non_toxic'', 0), (''slightly_toxic'', 0), (''very_toxic'', 0)], []) \<and>
   predict_all_articles default_config example_classifier unique_url []
       [example_article 1 [32, 10], example_article 2 [32, 10]] =
     (Inr (Some [(''processed'', 2), (''success'', 0), (''errors'', 0), (''toxic'', 0),
                 (''non_toxic'', 0), (''slightly_toxic'', 0), (''very_toxic'', 0)]), [])"
proof -
  have h: "\<forall>c\<in>set [32, 10]. is_space c" by (simp add: is_space_def)
  have c: "a_content (example_article 1 [32, 10]) = [32, 10]"
    "a_content (example_article 2 [32, 10]) = [32, 10]"
    by (simp_all add: example_article_def)
  have p: "map_of init_stats ''processed'' = Some 0" by (simp add: init_stats_def)
  note w = blank_text_is_skipped [OF h, where cfg = default_config and cls = example_classifier
      and accepts = unique_url and db = "[]" and url = None
      and article = "example_article 1 [32, 10]" and st = init_stats and n = 0
      and articles_list = "[example_article 1 [32, 10], example_article 2 [32, 10]]"]
  from w have w1: "predict_text default_config example_classifier unique_url [] [32, 10] None =
     (Inr \<lparr>r_success = None, r_error = Some EmptyTextMessage, r_prediction = None\<rparr>, [])"
    by blast
  from w c p obtain st' where
    st': "process_article default_config example_classifier unique_url init_stats []
            (example_article 1 [32, 10]) = (Inr st', [])"
    by blast
  have "process_article default_config example_classifier unique_url init_stats []
            (example_article 1 [32, 10]) = (incr ''processed'' init_stats, [])"
    using h c by (simp add: process_article_blank)
  then have w2: "process_article default_config example_classifier unique_url init_stats []
      (example_article 1 [32, 10]) =
     (Inr [(''processed'', 1), (''success'', 0), (''errors'', 0), (''toxic'', 0),
           (''non_toxic'', 0), (''slightly_toxic'', 0), (''very_toxic'', 0)], [])"
    using st' by (simp add: incr_def init_stats_def)
  from w c have "predict_all_articles default_config example_classifier unique_url []
       [example_article 1 [32, 10], example_article 2 [32, 10]] =
     (Inr (Some (AList.update ''processed''
        (length [example_article 1 [32, 10], example_article 2 [32, 10]]) init_stats)), [])"
    by simp
  then have w3: "predict_all_articles default_config example_classifier unique_url []
       [example_article 1 [32, 10], example_article 2 [32, 10]] =
     (Inr (Some [(''processed'', 2), (''success'', 0), (''errors'', 0), (''toxic'', 0),
                 (''non_toxic'', 0), (''slightly_toxic'', 0), (''very_toxic'', 0)]), [])"
    by (simp add: init_stats_def)
  have "is_space 32 \<and> is_space 10" by (simp add: is_space_def)
  with w1 c(1) p w2 w3 show ?thesis by blast
qed

text \<open>
  Claim C10. Called on a text that is empty or all whitespace, \<open>predict\<close> raises the
  \<open>ValueError\<close> of \<open>max\<close> on an empty sequence, whatever the classifier, while
  \<open>predict_text\<close> returns its error result; on a text with a non-whitespace code point
  \<open>predict\<close> never raises that error and \<open>predict_text\<close> never returns the error result.
\<close>

theorem predict_needs_a_word:
  "((\<forall>c\<in>set t. is_space c) \<longrightarrow>
      predict cfg cls t = Inl ValueError_max_empty \<and>
      predict_text cfg cls accepts db t url =
        (Inr \<lparr>r_success = None, r_error = Some EmptyTextMessage, r_prediction = None\<rparr>, db)) \<and>
   (\<not> (\<forall>c\<in>set t. is_space c) \<longrightarrow>
      predict cfg cls t \<noteq> Inl ValueError_max_empty \<and>
      fst (predict_text cfg cls accepts db t url) \<noteq>
        Inr \<lparr>r_success = None, r_error = Some EmptyTextMessage, r_prediction = None\<rparr>)"
proof (intro conjI impI)
  assume b: "\<forall>c\<in>set t. is_space c"
  show "predict cfg cls t = Inl ValueError_max_empty" using b by (rule predict_blank)
  show "predict_text cfg cls accepts db t url =
        (Inr \<lparr>r_success = None, r_error = Some EmptyTextMessage, r_prediction = None\<rparr>, db)"
    using b by (rule predict_text_blank)
next
  assume nb: "\<not> (\<forall>c\<in>set t. is_space c)"
  show "predict cfg cls t \<noteq> Inl ValueError_max_empty" using nb by (rule predict_nonblank)
  have "\<not> is_blank t" using nb by (simp add: is_blank_iff)
  then show "fst (predict_text cfg cls accepts db t url) \<noteq>
        Inr \<lparr>r_success = None, r_error = Some EmptyTextMessage, r_prediction = None\<rparr>"
    by (auto simp: predict_text_def insert_one_def Let_def split: sum.splits)
qed

theorem predict_needs_a_word_witness:
  "is_space 32 \<and> is_space 9 \<and>
   predict default_config example_classifier [32, 9] = Inl ValueError_max_empty \<and>
   predict default_config example_classifier [] = Inl ValueError_max_empty \<and>
   predict_text default_config example_classifier unique_url [] [32, 9] None =
     (Inr \<lparr>r_success = None, r_error = Some EmptyTextMessage, r_prediction = None\<rparr>, []) \<and>
   \<not> (\<forall>c\<in>set [104, 105]. is_space c) \<and>
   predict default_config example_classifier [104, 105] \<noteq> Inl ValueError_max_empty \<and>
   fst (predict_text default_config example_classifier unique_url [] [104, 105] None) \<noteq>
     Inr \<lparr>r_success = None, r_error = Some EmptyTextMessage, r_prediction = None\<rparr>"
proof -
  have h: "\<forall>c\<in>set [32, 9]. is_space c" by (simp add: is_space_def)
  have e: "\<forall>c\<in>set ([] :: nat list). is_space c" by simp
  have n: "\<not> (\<forall>c\<in>set [104, 105]. is_space c)" by (simp add: is_space_def)
  from h predict_needs_a_word [where t = "[32, 9]" and cfg = default_config
      and cls = example_classifier and accepts = unique_url and db = "[]" and url = None]
  have a: "predict default_config example_classifier [32, 9] = Inl ValueError_max_empty"
    "predict_text default_config example_classifier unique_url [] [32, 9] None =
     (Inr \<lparr>r_success = None, r_error = Some EmptyTextMessage, r_prediction = None\<rparr>, [])"
    by blast+
  from e predict_needs_a_word [where t = "[]" and cfg = default_config
      and cls = example_classifier and accepts = unique_url and db = "[]" and url = None]
  have b: "predict default_config example_classifier [] = Inl ValueError_max_empty"
    by blast
  from n predict_needs_a_word [where t = "[104, 105]" and cfg = default_config
      and cls = example_classifier and accepts = unique_url and db = "[]" and url = None]
  have c: "predict default_config example_classifier [104, 105] \<noteq> Inl ValueError_max_empty"
    "fst (predict_text default_config example_classifier unique_url [] [104, 105] None) \<noteq>
     Inr \<lparr>r_success = None, r_error = Some EmptyTextMessage, r_prediction = None\<rparr>"
    by blast+
  have "is_space 32 \<and> is_space 9" by (simp add: is_space_def)
  with a b n c show ?thesis by blast
qed


section \<open>The batch run\<close>

lemma init_stats_keys: "map fst init_stats = stat_keys"
  by (simp add: init_stats_def stat_keys_def)

lemma incr_present:
  assumes "k \<in> set (map fst st)"
  shows "incr k st = Inr (AList.update k (counter st k + 1) st)"
proof -
  from assms obtain v where "map_of st k = Some v"
    by (metis map_of_eq_None_iff not_Some_eq set_map)
  then show ?thesis by (simp add: incr_def counter_def)
qed

lemma keys_update_present:
  "k \<in> set (map fst st) \<Longrightarrow> map fst (AList.update k v st) = map fst st"
  by (simp add: update_keys)

lemma counter_update: "counter (AList.update k v st) k' = (if k' = k then v else counter st k')"
  by (simp add: counter_def update_conv')

lemma level_in_levels: "toxicity_level_of cfg score \<in> levels"
  by (simp add: toxicity_level_of_def levels_def)

lemma predict_level_in_levels:
  assumes "predict cfg cls t = Inr r"
  shows "toxicity_level r \<in> levels"
  using predict_level_prediction [OF assms] level_in_levels by auto

lemma count_success_ok:
  assumes keys: "map fst st = stat_keys" and lvl: "toxicity_level r \<in> levels"
  shows "\<exists>st'. count_success st r = (st', None) \<and> map fst st' = stat_keys \<and>
           counter st' ''success'' = counter st ''success'' + 1 \<and>
           counter st' ''errors'' = counter st ''errors'' \<and>
           counter st' ''processed'' = counter st ''processed''"
proof -
  let ?k3 = "if prediction r = ''toxic'' then ''toxic'' else ''non_toxic''"
  let ?s1 = "AList.update ''success'' (counter st ''success'' + 1) st"
  let ?s2 = "AList.update (toxicity_level r) (counter ?s1 (toxicity_level r) + 1) ?s1"
  let ?s3 = "AList.update ?k3 (counter ?s2 ?k3 + 1) ?s2"
  have k1: "''success'' \<in> set (map fst st)" using keys by (simp add: stat_keys_def)
  have i1: "incr ''success'' st = Inr ?s1" using k1 by (rule incr_present)
  have keys1: "map fst ?s1 = stat_keys" using k1 keys by (simp only: keys_update_present)
  have k2: "toxicity_level r \<in> set (map fst ?s1)"
    using lvl keys1 by (auto simp: stat_keys_def levels_def)
  have i2: "incr (toxicity_level r) ?s1 = Inr ?s2" using k2 by (rule incr_present)
  have keys2: "map fst ?s2 = stat_keys" using k2 keys1 by (simp only: keys_update_present)
  have k3: "?k3 \<in> set (map fst ?s2)" using keys2 by (simp add: stat_keys_def)
  have i3: "incr ?k3 ?s2 = Inr ?s3" using k3 by (rule incr_present)
  have keys3: "map fst ?s3 = stat_keys" using k3 keys2 by (simp only: keys_update_present)
  have cs: "count_success st r = (?s3, None)"
    unfolding count_success_def by (simp only: i1 i2 i3 sum.case)
  have l: "toxicity_level r \<noteq> ''success''" "toxicity_level r \<noteq> ''errors''"
    "toxicity_level r \<noteq> ''processed''"
    using lvl by (auto simp: levels_def)
  have c1: "counter ?s3 ''success'' = counter st ''success'' + 1"
    using l by (simp add: counter_update)
  have c2: "counter ?s3 ''errors'' = counter st ''errors''"
    using l by (simp add: counter_update)
  have c3: "counter ?s3 ''processed'' = counter st ''processed''"
    using l by (simp add: counter_update)
  from cs keys3 c1 c2 c3 show ?thesis by blast
qed

text \<open>One iteration of the batch loop when the classifier returns.\<close>

lemma process_article_ok:
  assumes keys: "map fst st = stat_keys"
    and ok: "\<not> is_blank (a_content a) \<longrightarrow> (\<exists>r. predict cfg cls (a_content a) = Inr r)"
  shows "\<exists>st' new. process_article cfg cls accepts st db a = (Inr st', db @ new) \<and>
           map fst st' = stat_keys \<and>
           counter st' ''processed'' = counter st ''processed'' + 1 \<and>
           counter st' ''success'' = counter st ''success'' + length new \<and>
           counter st' ''errors'' + length new =
             counter st ''errors'' + (if is_blank (a_content a) then 0 else 1)"
proof (cases "is_blank (a_content a)")
  case True
  let ?st = "AList.update ''processed'' (counter st ''processed'' + 1) st"
  have kp: "''processed'' \<in> set (map fst st)" using keys by (simp add: stat_keys_def)
  have "process_article cfg cls accepts st db a = (Inr ?st, db @ [])"
    using True incr_present [OF kp] by (simp add: process_article_def)
  moreover have "map fst ?st = stat_keys" using kp keys by (simp only: keys_update_present)
  moreover have "counter ?st ''processed'' = counter st ''processed'' + 1"
    "counter ?st ''success'' = counter st ''success'' + length ([] :: prediction_doc list)"
    "counter ?st ''errors'' + length ([] :: prediction_doc list) =
       counter st ''errors'' + (if is_blank (a_content a) then 0 else 1)"
    using True by (simp_all add: counter_update)
  ultimately show ?thesis by blast
next
  case False
  then obtain r where r: "predict cfg cls (a_content a) = Inr r" using ok by blast
  let ?doc = "\<lparr>d_url = Some (a_url a), d_site = Some (a_site a), d_title = Some (a_title a),
                d_text = take 1000 (a_content a),
                d_prediction = prediction r, d_confidence = confidence r,
                d_toxicity_level = toxicity_level r, d_article_id = Some (a_id a)\<rparr>"
  have pa: "process_article cfg cls accepts st db a =
      (case store_prediction accepts st db ?doc r of
         (Inl e, db') \<Rightarrow> (Inl e, db')
       | (Inr st', db') \<Rightarrow> (incr ''processed'' st', db'))"
    using False r by (simp add: process_article_def Let_def)
  show ?thesis
  proof (cases "accepts db ?doc")
    case acc: True
    from count_success_ok [OF keys predict_level_in_levels [OF r]]
    obtain st1 where st1: "count_success st r = (st1, None)" "map fst st1 = stat_keys"
      "counter st1 ''success'' = counter st ''success'' + 1"
      "counter st1 ''errors'' = counter st ''errors''"
      "counter st1 ''processed'' = counter st ''processed''" by blast
    let ?st = "AList.update ''processed'' (counter st1 ''processed'' + 1) st1"
    have kp: "''processed'' \<in> set (map fst st1)" using st1(2) by (simp add: stat_keys_def)
    have sp: "store_prediction accepts st db ?doc r = (Inr st1, db @ [?doc])"
      using acc st1(1) by (simp add: store_prediction_def insert_one_def)
    have "process_article cfg cls accepts st db a = (Inr ?st, db @ [?doc])"
      using pa sp incr_present [OF kp] by simp
    moreover have "map fst ?st = stat_keys" using kp st1(2) by (simp only: keys_update_present)
    moreover have "counter ?st ''processed'' = counter st ''processed'' + 1"
      "counter ?st ''success'' = counter st ''success'' + length [?doc]"
      "counter ?st ''errors'' + length [?doc] =
         counter st ''errors'' + (if is_blank (a_content a) then 0 else 1)"
      using st1(3,4,5) False by (simp_all add: counter_update)
    ultimately show ?thesis by blast
  next
    case rej: False
    let ?st1 = "AList.update ''errors'' (counter st ''errors'' + 1) st"
    let ?st = "AList.update ''processed'' (counter ?st1 ''processed'' + 1) ?st1"
    have ke: "''errors'' \<in> set (map fst st)" using keys by (simp add: stat_keys_def)
    have keys1: "map fst ?st1 = stat_keys" using ke keys by (simp only: keys_update_present)
    have kp: "''processed'' \<in> set (map fst ?st1)" using keys1 by (simp add: stat_keys_def)
    have sp: "store_prediction accepts st db ?doc r = (Inr ?st1, db @ [])"
      using rej incr_present [OF ke] by (simp add: store_prediction_def insert_one_def)
    have "process_article cfg cls accepts st db a = (Inr ?st, db @ [])"
      using pa sp incr_present [OF kp] by simp
    moreover have "map fst ?st = stat_keys" using kp keys1 by (simp only: keys_update_present)
    moreover have "counter ?st ''processed'' = counter st ''processed'' + 1"
      "counter ?st ''success'' = counter st ''success'' + length ([] :: prediction_doc list)"
      "counter ?st ''errors'' + length ([] :: prediction_doc list) =
         counter st ''errors'' + (if is_blank (a_content a) then 0 else 1)"
      using False by (simp_all add: counter_update)
    ultimately show ?thesis by blast
  qed
qed

lemma articles_loop_ok:
  assumes "map fst st = stat_keys"
    and "\<forall>a\<in>set as. \<not> is_blank (a_content a) \<longrightarrow> (\<exists>r. predict cfg cls (a_content a) = Inr r)"
  shows "\<exists>st' new. articles_loop cfg cls accepts st db as = (Inr st', db @ new) \<and>
           map fst st' = stat_keys \<and>
           counter st' ''processed'' = counter st ''processed'' + length as \<and>
           counter st' ''success'' = counter st ''success'' + length new \<and>
           counter st' ''errors'' + length new =
             counter st ''errors'' + length (filter (\<lambda>a. \<not> is_blank (a_content a)) as)"
  using assms
proof (induction as arbitrary: st db)
  case Nil
  have "articles_loop cfg cls accepts st db [] = (Inr st, db @ [])" by simp
  moreover have "counter st ''processed'' = counter st ''processed'' + length ([] :: article list)"
    "counter st ''success'' = counter st ''success'' + length ([] :: prediction_doc list)"
    "counter st ''errors'' + length ([] :: prediction_doc list) =
       counter st ''errors'' + length (filter (\<lambda>a. \<not> is_blank (a_content a)) [])"
    by simp_all
  ultimately show ?case using Nil.prems(1) by blast
next
  case (Cons a as)
  have oka: "\<not> is_blank (a_content a) \<longrightarrow> (\<exists>r. predict cfg cls (a_content a) = Inr r)"
    using Cons.prems(2) by simp
  from process_article_ok [OF Cons.prems(1) oka, of accepts db]
  obtain st1 new1 where s1: "process_article cfg cls accepts st db a = (Inr st1, db @ new1)"
    "map fst st1 = stat_keys"
    "counter st1 ''processed'' = counter st ''processed'' + 1"
    "counter st1 ''success'' = counter st ''success'' + length new1"
    "counter st1 ''errors'' + length new1 =
       counter st ''errors'' + (if is_blank (a_content a) then 0 else 1)" by blast
  have okas: "\<forall>a\<in>set as. \<not> is_blank (a_content a) \<longrightarrow> (\<exists>r. predict cfg cls (a_content a) = Inr r)"
    using Cons.prems(2) by simp
  from Cons.IH [OF s1(2) okas, of "db @ new1"]
  obtain st2 new2 where s2: "articles_loop cfg cls accepts st1 (db @ new1) as = (Inr st2, (db @ new1) @ new2)"
    "map fst st2 = stat_keys"
    "counter st2 ''processed'' = counter st1 ''processed'' + length as"
    "counter st2 ''success'' = counter st1 ''success'' + length new2"
    "counter st2 ''errors'' + length new2 =
       counter st1 ''errors'' + length (filter (\<lambda>a. \<not> is_blank (a_content a)) as)" by blast
  have l: "articles_loop cfg cls accepts st db (a # as) = (Inr st2, db @ (new1 @ new2))"
    using s1(1) s2(1) by simp
  have p: "counter st2 ''processed'' = counter st ''processed'' + length (a # as)"
    using s1(3) s2(3) by simp
  have s: "counter st2 ''success'' = counter st ''success'' + length (new1 @ new2)"
    using s1(4) s2(4) by simp
  have e: "counter st2 ''errors'' + length (new1 @ new2) =
       counter st ''errors'' + length (filter (\<lambda>a. \<not> is_blank (a_content a)) (a # as))"
    using s1(5) s2(5) by (cases "is_blank (a_content a)") simp_all
  from l s2(2) p s e show ?case by blast
qed

lemma articles_loop_append:
  "articles_loop cfg cls accepts st db (xs @ ys) =
     (case articles_loop cfg cls accepts st db xs of
        (Inl e, db') \<Rightarrow> (Inl e, db')
      | (Inr st', db') \<Rightarrow> articles_loop cfg cls accepts st' db' ys)"
proof (induction xs arbitrary: st db)
  case Nil
  then show ?case by (cases "articles_loop cfg cls accepts st db ys") (simp split: sum.splits)
next
  case (Cons x xs)
  obtain res db1 where p: "process_article cfg cls accepts st db x = (res, db1)"
    by (cases "process_article cfg cls accepts st db x")
  show ?case
  proof (cases res)
    case (Inl e)
    with p show ?thesis by simp
  next
    case (Inr st1)
    with p Cons.IH [of st1 db1] show ?thesis by simp
  qed
qed

lemma process_article_raises:
  assumes "\<not> is_blank (a_content a)" "predict cfg cls (a_content a) = Inl e"
  shows "process_article cfg cls accepts st db a = (Inl e, db)"
  using assms by (simp add: process_article_def)

lemmas eval_batch =
  predict_all_articles_def process_article_def is_blank_def str_strip_def is_space_def
  example_article_def store_prediction_def insert_one_def unique_url_def count_success_def
  incr_def init_stats_def

text \<open>
  Claim C1 as stated fails: the first article's scoring raises, and the run ends with
  that exception; the second article is not processed and no summary is produced.
\<close>

theorem batch_scorer_failure_aborts:
  "predict_all_articles default_config example_classifier unique_url []
     [example_article 1 [120], example_article 2 [104, 105]] = (Inl ScorerFailure, [])"
  by (simp add: eval_batch example_predict_x)

text \<open>
  Claim C9, evaluated on a run of one article that is scored \<open>non_toxic\<close> and persisted:
  the key \<open>non_toxic\<close> is incremented once for the level and once for the binary
  prediction, so the summary reports 2 for one persisted prediction of that level.
\<close>

theorem batch_non_toxic_counted_twice:
  "predict_all_articles default_config example_classifier unique_url []
     [example_article 1 [104, 105]] =
   (Inr (Some [(''processed'', 1), (''success'', 1), (''errors'', 0), (''toxic'', 0),
               (''non_toxic'', 2), (''slightly_toxic'', 0), (''very_toxic'', 0)]),
    [\<lparr>d_url = Some [117, 1], d_site = Some [115], d_title = Some [116], d_text = [104, 105],
      d_prediction = ''non_toxic'', d_confidence = Num (1/10),
      d_toxicity_level = ''non_toxic'', d_article_id = Some 1\<rparr>])"
  by (simp add: eval_batch example_predict_hi)

text \<open>
  Claim C1, amended. When the classifier returns for every article with content, the
  run ends with a summary: \<open>processed\<close> is the number of articles, \<open>success\<close> the number of
  documents added to the collection, and every article with content that was not added
  (a refused insertion) is counted under \<open>errors\<close>, the run going on with the next
  article. When the classifier raises for an article, the run ends with that exception:
  the collection holds what the earlier articles added, and the later ones are not
  processed.
\<close>

theorem batch_error_handling:
  "(articles_list \<noteq> [] \<and>
    (\<forall>a\<in>set articles_list. \<not> is_blank (a_content a) \<longrightarrow> (\<exists>r. predict cfg cls (a_content a) = Inr r)) \<longrightarrow>
      (\<exists>st new. predict_all_articles cfg cls accepts db articles_list = (Inr (Some st), db @ new) \<and>
          counter st ''processed'' = length articles_list \<and>
          counter st ''success'' = length new \<and>
          counter st ''errors'' + length new =
            length (filter (\<lambda>a. \<not> is_blank (a_content a)) articles_list))) \<and>
   ((\<forall>a\<in>set before. \<not> is_blank (a_content a) \<longrightarrow> (\<exists>r. predict cfg cls (a_content a) = Inr r)) \<and>
    \<not> is_blank (a_content article) \<and> predict cfg cls (a_content article) = Inl e \<longrightarrow>
      fst (predict_all_articles cfg cls accepts db (before @ article # rest)) = Inl e \<and>
      snd (predict_all_articles cfg cls accepts db (before @ article # rest)) =
        snd (articles_loop cfg cls accepts init_stats db before))"
proof (intro conjI impI)
  assume a: "articles_list \<noteq> [] \<and>
    (\<forall>a\<in>set articles_list. \<not> is_blank (a_content a) \<longrightarrow> (\<exists>r. predict cfg cls (a_content a) = Inr r))"
  have z: "counter init_stats ''processed'' = 0" "counter init_stats ''success'' = 0"
    "counter init_stats ''errors'' = 0"
    by (simp_all add: counter_def init_stats_def)
  from articles_loop_ok [OF init_stats_keys, of articles_list cfg cls accepts db] a
  obtain st new where l: "articles_loop cfg cls accepts init_stats db articles_list = (Inr st, db @ new)"
    "counter st ''processed'' = counter init_stats ''processed'' + length articles_list"
    "counter st ''success'' = counter init_stats ''success'' + length new"
    "counter st ''errors'' + length new = counter init_stats ''errors'' +
       length (filter (\<lambda>a. \<not> is_blank (a_content a)) articles_list)"
    by blast
  have "predict_all_articles cfg cls accepts db articles_list = (Inr (Some st), db @ new)"
    using a l(1) by (simp add: predict_all_articles_def)
  moreover have "counter st ''processed'' = length articles_list"
    "counter st ''success'' = length new"
    "counter st ''errors'' + length new =
       length (filter (\<lambda>a. \<not> is_blank (a_content a)) articles_list)"
    using l(2,3,4) z by simp_all
  ultimately show "\<exists>st new. predict_all_articles cfg cls accepts db articles_list = (Inr (Some st), db @ new) \<and>
          counter st ''processed'' = length articles_list \<and>
          counter st ''success'' = length new \<and>
          counter st ''errors'' + length new =
            length (filter (\<lambda>a. \<not> is_blank (a_content a)) articles_list)"
    by blast
next
  assume b: "(\<forall>a\<in>set before. \<not> is_blank (a_content a) \<longrightarrow> (\<exists>r. predict cfg cls (a_content a) = Inr r)) \<and>
    \<not> is_blank (a_content article) \<and> predict cfg cls (a_content article) = Inl e"
  from articles_loop_ok [OF init_stats_keys, of before cfg cls accepts db] b
  obtain st new where l: "articles_loop cfg cls accepts init_stats db before = (Inr st, db @ new)"
    by blast
  have "process_article cfg cls accepts st (db @ new) article = (Inl e, db @ new)"
    using b by (simp add: process_article_raises)
  then have "articles_loop cfg cls accepts init_stats db (before @ article # rest) = (Inl e, db @ new)"
    using l by (simp add: articles_loop_append)
  then have r: "predict_all_articles cfg cls accepts db (before @ article # rest) = (Inl e, db @ new)"
    by (simp add: predict_all_articles_def)
  show "fst (predict_all_articles cfg cls accepts db (before @ article # rest)) = Inl e"
    using r by simp
  show "snd (predict_all_articles cfg cls accepts db (before @ article # rest)) =
        snd (articles_loop cfg cls accepts init_stats db before)"
    using r l by simp
qed

lemma example_batch_refused:
  "predict_all_articles default_config example_classifier unique_url []
     [example_article 1 [104, 105], example_article 1 [121, 111], example_article 3 [32]] =
   (Inr (Some [(''processed'', 3), (''success'', 1), (''errors'', 1), (''toxic'', 0),
               (''non_toxic'', 2), (''slightly_toxic'', 0), (''very_toxic'', 0)]),
    [\<lparr>d_url = Some [117, 1], d_site = Some [115], d_title = Some [116], d_text = [104, 105],
      d_prediction = ''non_toxic'', d_confidence = Num (1/10),
      d_toxicity_level = ''non_toxic'', d_article_id = Some 1\<rparr>])"
  by (simp add: eval_batch example_predict_hi example_predict_yo)

lemma example_batch_raises:
  "predict_all_articles default_config example_classifier unique_url []
     ([example_article 1 [104, 105]] @ example_article 2 [120] # [example_article 3 [121, 111]]) =
   (Inl ScorerFailure,
    [\<lparr>d_url = Some [117, 1], d_site = Some [115], d_title = Some [116], d_text = [104, 105],
      d_prediction = ''non_toxic'', d_confidence = Num (1/10),
      d_toxicity_level = ''non_toxic'', d_article_id = Some 1\<rparr>])"
  by (simp add: eval_batch example_predict_hi example_predict_x)


theorem batch_error_handling_witness:
  "predict default_config example_classifier [104, 105] =
     Inr \<lparr>prediction = ''non_toxic'', confidence = Num (1/10), toxicity_level = ''non_toxic'',
          per_label = [(''toxic'', Num (1/10)), (''neutral'', Num (9/10))]\<rparr> \<and>
   predict default_config example_classifier [121, 111] =
     Inr \<lparr>prediction = ''toxic'', confidence = Num (8/10), toxicity_level = ''very_toxic'',
          per_label = [(''toxic'', Num (8/10)), (''neutral'', Num (2/10))]\<rparr> \<and>
   is_blank [32] \<and> \<not> is_blank [104, 105] \<and> \<not> is_blank [121, 111] \<and>
   (\<exists>st new.
      predict_all_articles default_config example_classifier unique_url []
        [example_article 1 [104, 105], example_article 1 [121, 111], example_article 3 [32]] =
        (Inr (Some st), [] @ new) \<and>
      counter st ''processed'' = 3 \<and> counter st ''success'' = length new \<and>
      counter st ''errors'' + length new = 2 \<and> length new = 1) \<and>
   \<not> is_blank [120] \<and>
   predict default_config example_classifier [120] = Inl ScorerFailure \<and>
   fst (predict_all_articles default_config example_classifier unique_url []
        ([example_article 1 [104, 105]] @ example_article 2 [120] # [example_article 3 [121, 111]]))
     = Inl ScorerFailure \<and>
   snd (predict_all_articles default_config example_classifier unique_url []
        ([example_article 1 [104, 105]] @ example_article 2 [120] # [example_article 3 [121, 111]]))
     = snd (articles_loop default_config example_classifier unique_url init_stats []
        [example_article 1 [104, 105]])"
proof -
  note hi = example_predict_hi and yo = example_predict_yo and x = example_predict_x
  have bl: "is_blank [32]" "\<not> is_blank [104, 105]" "\<not> is_blank [121, 111]" "\<not> is_blank [120]"
    by (simp_all add: is_blank_def str_strip_def is_space_def)
  let ?as = "[example_article 1 [104, 105], example_article 1 [121, 111], example_article 3 [32]]"
  have hypA: "?as \<noteq> [] \<and>
    (\<forall>a\<in>set ?as. \<not> is_blank (a_content a) \<longrightarrow>
       (\<exists>r. predict default_config example_classifier (a_content a) = Inr r))"
    using bl hi yo by (simp add: example_article_def)
  have hypB: "(\<forall>a\<in>set [example_article 1 [104, 105]]. \<not> is_blank (a_content a) \<longrightarrow>
       (\<exists>r. predict default_config example_classifier (a_content a) = Inr r)) \<and>
    \<not> is_blank (a_content (example_article 2 [120])) \<and>
    predict default_config example_classifier (a_content (example_article 2 [120])) = Inl ScorerFailure"
    using bl hi x by (simp add: example_article_def)
  note inst = batch_error_handling [where cfg = default_config and cls = example_classifier
      and accepts = unique_url and db = "[]" and articles_list = ?as
      and before = "[example_article 1 [104, 105]]" and article = "example_article 2 [120]"
      and e = ScorerFailure and rest = "[example_article 3 [121, 111]]"]
  from inst hypA obtain st new where
    A: "predict_all_articles default_config example_classifier unique_url [] ?as =
          (Inr (Some st), [] @ new)"
       "counter st ''processed'' = length ?as" "counter st ''success'' = length new"
       "counter st ''errors'' + length new =
          length (filter (\<lambda>a. \<not> is_blank (a_content a)) ?as)"
    by blast
  have "length new = 1" using A(1) example_batch_refused by simp
  moreover have "length (filter (\<lambda>a. \<not> is_blank (a_content a)) ?as) = 2"
    using bl by (simp add: example_article_def)
  ultimately have A': "\<exists>st new.
      predict_all_articles default_config example_classifier unique_url [] ?as =
        (Inr (Some st), [] @ new) \<and>
      counter st ''processed'' = 3 \<and> counter st ''success'' = length new \<and>
      counter st ''errors'' + length new = 2 \<and> length new = 1"
    using A by auto
  from inst hypB have B:
    "fst (predict_all_articles default_config example_classifier unique_url []
        ([example_article 1 [104, 105]] @ example_article 2 [120] # [example_article 3 [121, 111]]))
     = Inl ScorerFailure"
    "snd (predict_all_articles default_config example_classifier unique_url []
        ([example_article 1 [104, 105]] @ example_article 2 [120] # [example_article 3 [121, 111]]))
     = snd (articles_loop default_config example_classifier unique_url init_stats []
        [example_article 1 [104, 105]])"
    by blast+
  from hi yo bl x A' B show ?thesis by blast
qed


section \<open>Site statistics\<close>

lemma round_half_even_close: "\<bar>of_int (round_half_even y) - y\<bar> \<le> 1/2"
proof -
  have "of_int \<lfloor>y\<rfloor> \<le> y" "y < of_int \<lfloor>y\<rfloor> + 1" by linarith+
  then show ?thesis
    by (auto simp: round_half_even_def Let_def)
qed

lemma py_round_close: "\<bar>py_round 2 x - x\<bar> \<le> 1/200"
proof -
  have "\<bar>of_int (round_half_even (x * 100)) - x * 100\<bar> \<le> 1/2"
    by (rule round_half_even_close)
  then have "\<bar>of_int (round_half_even (x * 100)) / 100 - x\<bar> \<le> 1/200"
    by linarith
  then show ?thesis by (simp add: py_round_def)
qed

lemma lookup_present:
  assumes "k \<in> set (map fst cs)"
  shows "lookup cs k = Inr (counter cs k)"
proof -
  from assms obtain v where "map_of cs k = Some v"
    by (metis map_of_eq_None_iff not_Some_eq set_map)
  then show ?thesis by (simp add: lookup_def counter_def)
qed

lemma entry_of_good:
  assumes "map fst cs = count_keys"
  shows "entry_of cs =
     Inr (if 0 < counter cs ''total''
          then Some \<lparr>total_articles = counter cs ''total'',
                     non_toxic_count = counter cs ''non_toxic'',
                     slightly_toxic_count = counter cs ''slightly_toxic'',
                     very_toxic_count = counter cs ''very_toxic'',
                     non_toxic_pct =
                       py_round 2 (real (counter cs ''non_toxic'') / real (counter cs ''total'') * 100),
                     slightly_toxic_pct =
                       py_round 2 (real (counter cs ''slightly_toxic'') / real (counter cs ''total'') * 100),
                     very_toxic_pct =
                       py_round 2 (real (counter cs ''very_toxic'') / real (counter cs ''total'') * 100)\<rparr>
          else None)"
proof -
  have "lookup cs ''total'' = Inr (counter cs ''total'')"
    "lookup cs ''non_toxic'' = Inr (counter cs ''non_toxic'')"
    "lookup cs ''slightly_toxic'' = Inr (counter cs ''slightly_toxic'')"
    "lookup cs ''very_toxic'' = Inr (counter cs ''very_toxic'')"
    using assms by (simp_all add: lookup_present count_keys_def)
  then show ?thesis by (simp add: entry_of_def)
qed

lemma with_percentages_good:
  assumes "\<forall>(s, cs)\<in>set ss. map fst cs = count_keys"
  shows "\<exists>stats. with_percentages ss = Inr stats \<and>
           (\<forall>s en. (s, en) \<in> set stats \<longleftrightarrow> (\<exists>cs. (s, cs) \<in> set ss \<and> entry_of cs = Inr (Some en))) \<and>
           set (map fst stats) \<subseteq> set (map fst ss) \<and>
           (distinct (map fst ss) \<longrightarrow> distinct (map fst stats))"
  using assms
proof (induction ss)
  case Nil
  then show ?case by simp
next
  case (Cons p ss)
  obtain s cs where p: "p = (s, cs)" by (cases p)
  have k: "map fst cs = count_keys" using Cons.prems p by simp
  from Cons.IH Cons.prems obtain stats where st: "with_percentages ss = Inr stats"
    "\<forall>s en. (s, en) \<in> set stats \<longleftrightarrow> (\<exists>cs. (s, cs) \<in> set ss \<and> entry_of cs = Inr (Some en))"
    "set (map fst stats) \<subseteq> set (map fst ss)"
    "distinct (map fst ss) \<longrightarrow> distinct (map fst stats)"
    by auto
  obtain entry where e: "entry_of cs = Inr entry" using entry_of_good [OF k] by simp
  show ?case
  proof (cases entry)
    case None
    have "with_percentages (p # ss) = Inr stats" using p e st(1) None by simp
    moreover have "\<forall>s' en. (s', en) \<in> set stats \<longleftrightarrow>
        (\<exists>cs'. (s', cs') \<in> set (p # ss) \<and> entry_of cs' = Inr (Some en))"
      using st(2) p e None by auto
    moreover have "set (map fst stats) \<subseteq> set (map fst (p # ss))" using st(3) by auto
    moreover have "distinct (map fst (p # ss)) \<longrightarrow> distinct (map fst stats)" using st(4) by simp
    ultimately show ?thesis by blast
  next
    case (Some en)
    have "with_percentages (p # ss) = Inr ((s, en) # stats)" using p e st(1) Some by simp
    moreover have "\<forall>s' en'. (s', en') \<in> set ((s, en) # stats) \<longleftrightarrow>
        (\<exists>cs'. (s', cs') \<in> set (p # ss) \<and> entry_of cs' = Inr (Some en'))"
      using st(2) p e Some by auto
    moreover have "set (map fst ((s, en) # stats)) \<subseteq> set (map fst (p # ss))"
      using st(3) p by auto
    moreover have "distinct (map fst (p # ss)) \<longrightarrow> distinct (map fst ((s, en) # stats))"
      using st(3,4) p by auto
    ultimately show ?thesis by blast
  qed
qed

lemma group_count_append_new:
  assumes "(Some site, level) \<notin> fst ` set ps"
  shows "group_count (ps @ [((Some site, level), c)]) s l =
           (if s = site \<and> l = level then c else group_count ps s l)"
proof -
  have n: "map_of ps (Some site, level) = None" using assms by (simp add: map_of_eq_None_iff)
  show ?thesis
    using n by (auto simp: group_count_def map_add_def split: option.splits)
qed

lemma group_count_absent:
  assumes "(Some s, l) \<notin> fst ` set ps"
  shows "group_count ps s l = 0"
proof -
  have "map_of ps (Some s, l) = None" using assms by (simp add: map_of_eq_None_iff)
  then show ?thesis by (simp add: group_count_def)
qed

lemma good_counts_init:
  assumes "Some s \<notin> fst ` fst ` set ps"
  shows "good_counts ps s init_counts"
proof -
  have "(Some s, l) \<notin> fst ` set ps" for l using assms by force
  then have "group_count ps s l = 0" for l by (rule group_count_absent)
  then show ?thesis
    by (simp add: good_counts_def init_counts_def count_keys_def counter_def)
qed

lemma good_counts_other:
  assumes "good_counts ps s cs" "s \<noteq> site" "(Some site, level) \<notin> fst ` set ps"
  shows "good_counts (ps @ [((Some site, level), c)]) s cs"
  using assms by (simp add: good_counts_def group_count_append_new)

lemma good_counts_update:
  assumes g: "good_counts ps site cs" and new: "(Some site, level) \<notin> fst ` set ps"
    and lvl: "level \<in> levels"
  shows "good_counts (ps @ [((Some site, level), c)]) site
           (AList.update ''total'' (counter cs ''total'' + c) (AList.update level c cs))"
proof -
  have keys: "map fst cs = count_keys" using g by (simp add: good_counts_def)
  have lk: "level \<in> set (map fst cs)" using lvl keys by (auto simp: levels_def count_keys_def)
  have k1: "map fst (AList.update level c cs) = count_keys"
    using lk keys by (simp only: keys_update_present)
  have tk: "''total'' \<in> set (map fst (AList.update level c cs))"
    using k1 by (simp add: count_keys_def)
  have k2: "map fst (AList.update ''total'' (counter cs ''total'' + c) (AList.update level c cs))
      = count_keys"
    using tk k1 by (simp only: keys_update_present)
  have z: "group_count ps site level = 0" using new by (rule group_count_absent)
  from lvl consider "level = ''non_toxic''" | "level = ''slightly_toxic''" | "level = ''very_toxic''"
    by (auto simp: levels_def)
  then show ?thesis
  proof cases
    case 1
    with g z k2 new show ?thesis
      by (simp add: good_counts_def counter_update group_count_append_new)
  next
    case 2
    with g z k2 new show ?thesis
      by (simp add: good_counts_def counter_update group_count_append_new)
  next
    case 3
    with g z k2 new show ?thesis
      by (simp add: good_counts_def counter_update group_count_append_new)
  qed
qed

lemma add_group_step:
  assumes inv: "stats_inv ps ss" and new: "(Some site, level) \<notin> fst ` set ps"
    and lvl: "level \<in> levels"
  shows "\<exists>ss'. add_group ss ((Some site, level), c) = Inr ss' \<and>
               stats_inv (ps @ [((Some site, level), c)]) ss'"
proof -
  let ?ss1 = "if map_of ss site = None then AList.update site init_counts ss else ss"
  obtain cs where cs: "map_of ?ss1 site = Some cs" "good_counts ps site cs"
    "map_of ?ss1 = (map_of ss)(site \<mapsto> cs)"
  proof (cases "map_of ss site")
    case None
    then have "site \<notin> dom (map_of ss)" by (simp add: domIff)
    then have "Some site \<notin> fst ` fst ` set ps" using inv by (simp add: stats_inv_def)
    then have "good_counts ps site init_counts" by (rule good_counts_init)
    moreover have "map_of ?ss1 = (map_of ss)(site \<mapsto> init_counts)"
      using None by (simp add: update_conv')
    ultimately show ?thesis using that [of init_counts] by simp
  next
    case (Some cs0)
    then have "good_counts ps site cs0" using inv by (simp add: stats_inv_def)
    moreover have "map_of ?ss1 = (map_of ss)(site \<mapsto> cs0)" using Some by auto
    ultimately show ?thesis using that [of cs0] Some by simp
  qed
  let ?cs1 = "AList.update level c cs"
  let ?cs2 = "AList.update ''total'' (counter cs ''total'' + c) ?cs1"
  let ?ss' = "AList.update site ?cs2 ?ss1"
  have keys: "map fst cs = count_keys" using cs(2) by (simp add: good_counts_def)
  have lk: "level \<in> set (map fst cs)" using lvl keys by (auto simp: levels_def count_keys_def)
  have k1: "map fst ?cs1 = count_keys" using lk keys by (simp only: keys_update_present)
  have lt: "level \<noteq> ''total''" using lvl by (auto simp: levels_def)
  have l1: "lookup ?ss1 site = Inr cs" using cs(1) by (simp add: lookup_def)
  have "lookup ?cs1 ''total'' = Inr (counter ?cs1 ''total'')"
    using k1 by (intro lookup_present) (simp add: count_keys_def)
  then have l2: "lookup ?cs1 ''total'' = Inr (counter cs ''total'')"
    using lt by (simp add: counter_update)
  have ag: "add_group ss ((Some site, level), c) = Inr ?ss'"
    unfolding add_group_def Let_def fst_conv snd_conv option.case
    by (simp only: l1 l2 sum.case)
  have m: "map_of ?ss' = (map_of ss)(site \<mapsto> ?cs2)"
    by (simp only: update_conv' cs(3) fun_upd_upd)
  have "dom (map_of ss) = {s. Some s \<in> fst ` fst ` set ps}" using inv by (simp add: stats_inv_def)
  then have d: "dom (map_of ?ss') = {s. Some s \<in> fst ` fst ` set (ps @ [((Some site, level), c)])}"
    by (auto simp: m)
  have g: "good_counts (ps @ [((Some site, level), c)]) s cs'" if "map_of ?ss' s = Some cs'" for s cs'
  proof (cases "s = site")
    case True
    then have "cs' = ?cs2" using that m by simp
    then show ?thesis using True good_counts_update [OF cs(2) new lvl] by simp
  next
    case False
    then have "map_of ss s = Some cs'" using that m by simp
    then have "good_counts ps s cs'" using inv by (simp add: stats_inv_def)
    then show ?thesis using False new by (rule good_counts_other)
  qed
  from ag d g show ?thesis unfolding stats_inv_def by blast
qed

lemma add_group_distinct:
  assumes "distinct (map fst ss)" "add_group ss res = Inr ss'"
  shows "distinct (map fst ss')"
proof -
  from assms(2) obtain site where site: "fst (fst res) = Some site"
    by (cases "fst (fst res)") (simp_all add: add_group_def)
  let ?ss1 = "if map_of ss site = None then AList.update site init_counts ss else ss"
  have "distinct (map fst ?ss1)" using assms(1) by (simp add: distinct_update)
  moreover from assms(2) site obtain cs2 where "ss' = AList.update site cs2 ?ss1"
    by (auto simp: add_group_def Let_def split: sum.splits)
  ultimately show ?thesis by (simp only: distinct_update)
qed

lemma add_groups_distinct:
  "distinct (map fst ss) \<Longrightarrow> add_groups ss rs = Inr ss' \<Longrightarrow> distinct (map fst ss')"
proof (induction rs arbitrary: ss)
  case Nil
  then show ?case by simp
next
  case (Cons r rs)
  from Cons.prems(2) obtain ss1 where s: "add_group ss r = Inr ss1" "add_groups ss1 rs = Inr ss'"
    by (auto split: sum.splits)
  from add_group_distinct [OF Cons.prems(1) s(1)] Cons.IH s(2) show ?case by blast
qed

lemma add_groups_inv:
  assumes "stats_inv ps ss" "distinct (map fst (ps @ rs))" "\<forall>r\<in>set rs. snd (fst r) \<in> levels"
    and "\<forall>r\<in>set rs. fst (fst r) \<noteq> None"
  shows "\<exists>ss'. add_groups ss rs = Inr ss' \<and> stats_inv (ps @ rs) ss'"
  using assms
proof (induction rs arbitrary: ps ss)
  case Nil
  then show ?case by simp
next
  case (Cons r rs)
  obtain osite level c where r0: "r = ((osite, level), c)" by (metis prod.collapse)
  then obtain site where r: "r = ((Some site, level), c)" using Cons.prems(4) by auto
  have new: "(Some site, level) \<notin> fst ` set ps" using Cons.prems(2) r by auto
  have lvl: "level \<in> levels" using Cons.prems(3) r by simp
  from add_group_step [OF Cons.prems(1) new lvl, of c]
  obtain ss1 where s1: "add_group ss r = Inr ss1" "stats_inv (ps @ [r]) ss1" using r by blast
  have d: "distinct (map fst ((ps @ [r]) @ rs))" using Cons.prems(2) by simp
  have l: "\<forall>r\<in>set rs. snd (fst r) \<in> levels" using Cons.prems(3) by simp
  have n: "\<forall>r\<in>set rs. fst (fst r) \<noteq> None" using Cons.prems(4) by simp
  from Cons.IH [OF s1(2) d l n] obtain ss' where
    "add_groups ss1 rs = Inr ss'" "stats_inv ((ps @ [r]) @ rs) ss'" by blast
  then show ?case using s1(1) by simp
qed

lemma add_group_error:
  assumes "add_group ss r = Inl e"
  shows "e = KeyError"
  using assms
  by (auto simp: add_group_def lookup_def Let_def split: option.splits sum.splits if_splits)

lemma add_groups_raises:
  assumes "\<exists>r\<in>set rs. fst (fst r) = None"
  shows "add_groups ss rs = Inl KeyError"
  using assms
proof (induction rs arbitrary: ss)
  case Nil
  then show ?case by simp
next
  case (Cons r rs)
  show ?case
  proof (cases "add_group ss r")
    case (Inl e)
    then show ?thesis using add_group_error [OF Inl] by simp
  next
    case (Inr ss1)
    then have "fst (fst r) \<noteq> None" by (cases "fst (fst r)") (simp_all add: add_group_def)
    then have "\<exists>r\<in>set rs. fst (fst r) = None" using Cons.prems by auto
    from Cons.IH [OF this] Inr show ?thesis by simp
  qed
qed

lemma map_of_tabulate:
  "map_of (map (\<lambda>k. (k, f k)) ks) k = (if k \<in> set ks then Some (f k) else None)"
  by (induction ks) auto

lemma aggregate_keys: "map fst (aggregate db) = remdups (map group_key db)"
  by (simp add: aggregate_def Let_def comp_def)

lemma group_count_aggregate:
  "group_count (aggregate db) s l = count_list (map group_key db) (Some s, l)"
proof (cases "(Some s, l) \<in> set (map group_key db)")
  case True
  then show ?thesis
    by (simp add: group_count_def aggregate_def Let_def map_of_tabulate)
next
  case False
  then have "count_list (map group_key db) (Some s, l) = 0" by (simp add: count_list_0_iff)
  with False show ?thesis
    by (simp add: group_count_def aggregate_def Let_def map_of_tabulate)
qed

lemma count_list_group_key:
  "count_list (map group_key db) (s, l) =
     length (filter (\<lambda>d. d_site d = s \<and> d_toxicity_level d = l) db)"
  by (induction db) (auto simp: group_key_def)

lemma site_count_split:
  assumes "\<forall>d\<in>set db. d_toxicity_level d \<in> levels"
  shows "length (filter (\<lambda>d. d_site d = s \<and> d_toxicity_level d = ''non_toxic'') db) +
         length (filter (\<lambda>d. d_site d = s \<and> d_toxicity_level d = ''slightly_toxic'') db) +
         length (filter (\<lambda>d. d_site d = s \<and> d_toxicity_level d = ''very_toxic'') db) =
         length (filter (\<lambda>d. d_site d = s) db)"
  using assms
proof (induction db)
  case Nil
  then show ?case by simp
next
  case (Cons d db)
  have "d_toxicity_level d = ''non_toxic'' \<or> d_toxicity_level d = ''slightly_toxic'' \<or>
        d_toxicity_level d = ''very_toxic''"
    using Cons.prems by (simp add: levels_def)
  moreover have "\<forall>d\<in>set db. d_toxicity_level d \<in> levels" using Cons.prems by simp
  ultimately show ?case using Cons.IH by auto
qed

lemma results_same_map:
  assumes "mset results = mset (aggregate db)"
  shows "distinct (map fst results)" "map_of results = map_of (aggregate db)"
    "set results = set (aggregate db)"
proof -
  have "mset (map fst results) = mset (map fst (aggregate db))"
    using assms by (metis mset_map)
  moreover have da: "distinct (map fst (aggregate db))" by (simp add: aggregate_keys)
  ultimately show d: "distinct (map fst results)" by (metis mset_eq_imp_distinct_iff)
  show s: "set results = set (aggregate db)" using assms by (rule mset_eq_setD)
  show "map_of results = map_of (aggregate db)"
    using d da s by (simp add: map_of_inject_set)
qed

lemma pct_sum_close:
  assumes "n + s + v = t" "0 < t"
  shows "\<bar>py_round 2 (real n / real t * 100) + py_round 2 (real s / real t * 100) +
          py_round 2 (real v / real t * 100) - 100\<bar> \<le> 15/1000"
proof -
  have "real n + real s + real v = real t" using assms(1) by (metis of_nat_add)
  then have "(real n + real s + real v) / real t * 100 = 100" using assms(2) by simp
  then have e: "real n / real t * 100 + real s / real t * 100 + real v / real t * 100 = 100"
    by (simp add: add_divide_distrib distrib_right)
  have "\<bar>py_round 2 (real n / real t * 100) - real n / real t * 100\<bar> \<le> 1/200"
    "\<bar>py_round 2 (real s / real t * 100) - real s / real t * 100\<bar> \<le> 1/200"
    "\<bar>py_round 2 (real v / real t * 100) - real v / real t * 100\<bar> \<le> 1/200"
    by (rule py_round_close)+
  with e show ?thesis by linarith
qed

lemma good_counts_entry:
  assumes g: "good_counts results s cs" and m: "map_of results = map_of (aggregate db)"
    and lv: "\<forall>d\<in>set db. d_toxicity_level d \<in> levels"
  shows "counter cs ''non_toxic'' =
           length (filter (\<lambda>d. d_site d = Some s \<and> d_toxicity_level d = ''non_toxic'') db)"
    and "counter cs ''slightly_toxic'' =
           length (filter (\<lambda>d. d_site d = Some s \<and> d_toxicity_level d = ''slightly_toxic'') db)"
    and "counter cs ''very_toxic'' =
           length (filter (\<lambda>d. d_site d = Some s \<and> d_toxicity_level d = ''very_toxic'') db)"
    and "counter cs ''total'' = length (filter (\<lambda>d. d_site d = Some s) db)"
proof -
  have gc: "group_count results s l =
      length (filter (\<lambda>d. d_site d = Some s \<and> d_toxicity_level d = l) db)" for l
  proof -
    have "group_count results s l = group_count (aggregate db) s l"
      using m by (simp add: group_count_def)
    then show ?thesis by (simp add: group_count_aggregate count_list_group_key)
  qed
  show a: "counter cs ''non_toxic'' =
           length (filter (\<lambda>d. d_site d = Some s \<and> d_toxicity_level d = ''non_toxic'') db)"
    using g gc by (simp add: good_counts_def)
  show b: "counter cs ''slightly_toxic'' =
           length (filter (\<lambda>d. d_site d = Some s \<and> d_toxicity_level d = ''slightly_toxic'') db)"
    using g gc by (simp add: good_counts_def)
  show c: "counter cs ''very_toxic'' =
           length (filter (\<lambda>d. d_site d = Some s \<and> d_toxicity_level d = ''very_toxic'') db)"
    using g gc by (simp add: good_counts_def)
  have "counter cs ''total'' =
      counter cs ''non_toxic'' + counter cs ''slightly_toxic'' + counter cs ''very_toxic''"
    using g by (simp add: good_counts_def)
  then show "counter cs ''total'' = length (filter (\<lambda>d. d_site d = Some s) db)"
    using a b c site_count_split [OF lv, of "Some s"] by simp
qed

lemma entry_consistent_of_good:
  assumes g: "good_counts results s cs" and m: "map_of results = map_of (aggregate db)"
    and lv: "\<forall>d\<in>set db. d_toxicity_level d \<in> levels"
    and e: "entry_of cs = Inr (Some en)"
  shows "entry_consistent db s en"
proof -
  note c = good_counts_entry [OF g m lv]
  have keys: "map fst cs = count_keys" using g by (simp add: good_counts_def)
  have sum: "counter cs ''non_toxic'' + counter cs ''slightly_toxic'' + counter cs ''very_toxic''
      = counter cs ''total''"
    using g by (simp add: good_counts_def)
  from e entry_of_good [OF keys] have pos: "0 < counter cs ''total''"
    by (auto split: if_splits)
  with e entry_of_good [OF keys] have en: "en =
      \<lparr>total_articles = counter cs ''total'',
       non_toxic_count = counter cs ''non_toxic'',
       slightly_toxic_count = counter cs ''slightly_toxic'',
       very_toxic_count = counter cs ''very_toxic'',
       non_toxic_pct =
         py_round 2 (real (counter cs ''non_toxic'') / real (counter cs ''total'') * 100),
       slightly_toxic_pct =
         py_round 2 (real (counter cs ''slightly_toxic'') / real (counter cs ''total'') * 100),
       very_toxic_pct =
         py_round 2 (real (counter cs ''very_toxic'') / real (counter cs ''total'') * 100)\<rparr>"
    by simp
  have close: "\<bar>non_toxic_pct en + slightly_toxic_pct en + very_toxic_pct en - 100\<bar> \<le> 15/1000"
    using pct_sum_close [OF sum pos] by (simp add: en)
  show ?thesis
    unfolding entry_consistent_def
    using close sum pos c by (simp add: en)
qed

text \<open>
  Claim C5. Let the groups be those of the aggregation over the collection, in any
  order, and let every document have one of the three levels. If every document has a
  site, \<open>get_statistics_by_site\<close> returns, and in its result the sites are exactly the
  sites that have a document (a site without records does not appear), each once; for
  each site the three counts add up to \<open>total_articles\<close>, each percentage is its count
  divided by the total times 100 rounded to 2 decimals, and the three percentages add
  up to 100 within 0.015. If some document has no site, there is no result:
  \<open>get_statistics_by_site\<close> raises \<open>KeyError\<close>.
\<close>

theorem site_statistics_invariants:
  assumes "mset results = mset (aggregate db)"
    and "\<forall>d\<in>set db. d_toxicity_level d \<in> levels"
  shows "((\<forall>d\<in>set db. d_site d \<noteq> None) \<longrightarrow>
            (\<exists>stats. get_statistics_by_site results = Inr stats \<and> distinct (map fst stats) \<and>
               Some ` fst ` set stats = d_site ` set db \<and>
               (\<forall>(s, en)\<in>set stats. entry_consistent db s en))) \<and>
         ((\<exists>d\<in>set db. d_site d = None) \<longrightarrow> get_statistics_by_site results = Inl KeyError)"
proof (intro conjI impI)
  note r = results_same_map [OF assms(1)]
  assume none: "\<exists>d\<in>set db. d_site d = None"
  then have "\<exists>r\<in>set results. fst (fst r) = None"
    using r(3) by (force simp: aggregate_def Let_def group_key_def)
  then have "add_groups [] results = Inl KeyError" by (rule add_groups_raises)
  then show "get_statistics_by_site results = Inl KeyError"
    by (simp add: get_statistics_by_site_def)
next
  note r = results_same_map [OF assms(1)]
  assume all: "\<forall>d\<in>set db. d_site d \<noteq> None"
  have lv: "\<forall>r\<in>set results. snd (fst r) \<in> levels"
    using r(3) assms(2) by (auto simp: aggregate_def Let_def group_key_def)
  have sm: "\<forall>r\<in>set results. fst (fst r) \<noteq> None"
    using r(3) all by (auto simp: aggregate_def Let_def group_key_def)
  have sites: "fst ` fst ` set results = d_site ` set db"
    using r(3) by (force simp: aggregate_def Let_def group_key_def)
  have inv0: "stats_inv [] []" by (simp add: stats_inv_def)
  from add_groups_inv [OF inv0, of results] r(1) lv sm
  obtain ss where ss: "add_groups [] results = Inr ss" "stats_inv results ss" by auto
  have dss: "distinct (map fst ss)" using add_groups_distinct [OF _ ss(1)] by simp
  have good: "good_counts results s cs" if "(s, cs) \<in> set ss" for s cs
    using that dss ss(2) by (simp add: stats_inv_def)
  then have keys: "\<forall>(s, cs)\<in>set ss. map fst cs = count_keys"
    by (auto simp: good_counts_def)
  from with_percentages_good [OF keys]
  obtain stats where st: "with_percentages ss = Inr stats"
    "\<forall>s en. (s, en) \<in> set stats \<longleftrightarrow> (\<exists>cs. (s, cs) \<in> set ss \<and> entry_of cs = Inr (Some en))"
    "set (map fst stats) \<subseteq> set (map fst ss)" "distinct (map fst stats)"
    using dss by blast
  have ret: "get_statistics_by_site results = Inr stats"
    using ss(1) st(1) by (simp add: get_statistics_by_site_def)
  have cons: "\<forall>(s, en)\<in>set stats. entry_consistent db s en"
  proof (clarify)
    fix s en assume "(s, en) \<in> set stats"
    then obtain cs where cs: "(s, cs) \<in> set ss" "entry_of cs = Inr (Some en)"
      using st(2) by blast
    from entry_consistent_of_good [OF good [OF cs(1)] r(2) assms(2) cs(2)]
    show "entry_consistent db s en" .
  qed
  have dom: "set (map fst ss) = {s. Some s \<in> d_site ` set db}"
  proof -
    have "dom (map_of ss) = {s. Some s \<in> fst ` fst ` set results}"
      using ss(2) by (simp add: stats_inv_def)
    then show ?thesis using sites by (simp add: dom_map_of_conv_image_fst)
  qed
  have "Some ` fst ` set stats = d_site ` set db"
  proof
    show "Some ` fst ` set stats \<subseteq> d_site ` set db" using st(3) dom by auto
    show "d_site ` set db \<subseteq> Some ` fst ` set stats"
    proof
      fix x assume x: "x \<in> d_site ` set db"
      then obtain d where d: "d \<in> set db" "d_site d = x" by blast
      then obtain s where s: "x = Some s" using all by (cases x) auto
      from x s dom obtain cs where cs: "(s, cs) \<in> set ss" by force
      have keys: "map fst cs = count_keys" using good [OF cs] by (simp add: good_counts_def)
      have "counter cs ''total'' = length (filter (\<lambda>d. d_site d = Some s) db)"
        using good_counts_entry(4) [OF good [OF cs] r(2) assms(2)] .
      moreover have "0 < length (filter (\<lambda>d. d_site d = Some s) db)"
        using d s by (simp add: filter_empty_conv) blast
      ultimately have "\<exists>en. entry_of cs = Inr (Some en)"
        using entry_of_good [OF keys] by simp
      then have "s \<in> fst ` set stats" using st(2) cs by force
      then show "x \<in> Some ` fst ` set stats" using s by simp
    qed
  qed
  with ret st(4) cons
  show "\<exists>stats. get_statistics_by_site results = Inr stats \<and> distinct (map fst stats) \<and>
               Some ` fst ` set stats = d_site ` set db \<and>
               (\<forall>(s, en)\<in>set stats. entry_consistent db s en)"
    by blast
qed

lemmas eval_stats =
  get_statistics_by_site_def add_group_def lookup_def init_counts_def entry_of_def
  py_round_def round_half_even_def Let_def

lemma example_aggregate:
  "aggregate example_db =
     [((Some [65], ''non_toxic''), 1), ((Some [66], ''non_toxic''), 1),
      ((Some [65], ''slightly_toxic''), 1), ((Some [65], ''very_toxic''), 1)]"
  by (simp add: aggregate_def example_db_def example_doc_def group_key_def)

lemma example_statistics:
  "get_statistics_by_site example_results =
     Inr [([65],
           \<lparr>total_articles = 3, non_toxic_count = 1, slightly_toxic_count = 1,
            very_toxic_count = 1, non_toxic_pct = 3333/100, slightly_toxic_pct = 3333/100,
            very_toxic_pct = 3333/100\<rparr>),
          ([66],
           \<lparr>total_articles = 1, non_toxic_count = 1, slightly_toxic_count = 0,
            very_toxic_count = 0, non_toxic_pct = 100, slightly_toxic_pct = 0,
            very_toxic_pct = 0\<rparr>)]"
  by (simp add: eval_stats example_results_def)

lemma example_aggregate_siteless:
  "aggregate example_db_siteless =
     [((Some [65], ''non_toxic''), 1), ((None, ''non_toxic''), 1)]"
  by (simp add: aggregate_def example_db_siteless_def example_doc_def group_key_def)

theorem site_statistics_invariants_witness:
  "mset example_results = mset (aggregate example_db) \<and>
   set (map d_toxicity_level example_db) \<subseteq> levels \<and>
   None \<notin> set (map d_site example_db) \<and>
   get_statistics_by_site example_results =
     Inr [([65],
           \<lparr>total_articles = 3, non_toxic_count = 1, slightly_toxic_count = 1,
            very_toxic_count = 1, non_toxic_pct = 3333/100, slightly_toxic_pct = 3333/100,
            very_toxic_pct = 3333/100\<rparr>),
          ([66],
           \<lparr>total_articles = 1, non_toxic_count = 1, slightly_toxic_count = 0,
            very_toxic_count = 0, non_toxic_pct = 100, slightly_toxic_pct = 0,
            very_toxic_pct = 0\<rparr>)] \<and>
   entry_consistent example_db [65]
     \<lparr>total_articles = 3, non_toxic_count = 1, slightly_toxic_count = 1,
      very_toxic_count = 1, non_toxic_pct = 3333/100, slightly_toxic_pct = 3333/100,
      very_toxic_pct = 3333/100\<rparr> \<and>
   entry_consistent example_db [66]
     \<lparr>total_articles = 1, non_toxic_count = 1, slightly_toxic_count = 0,
      very_toxic_count = 0, non_toxic_pct = 100, slightly_toxic_pct = 0,
      very_toxic_pct = 0\<rparr> \<and>
   set (map d_toxicity_level example_db_siteless) \<subseteq> levels \<and>
   None \<in> set (map d_site example_db_siteless) \<and>
   get_statistics_by_site (aggregate example_db_siteless) = Inl KeyError"
proof -
  have h1: "mset example_results = mset (aggregate example_db)"
    by (simp add: example_aggregate) (simp add: example_results_def add_mset_commute)
  have lv: "set (map d_toxicity_level example_db) \<subseteq> levels"
    by (simp add: example_db_def example_doc_def levels_def)
  then have h2: "\<forall>d\<in>set example_db. d_toxicity_level d \<in> levels" by auto
  have st: "None \<notin> set (map d_site example_db)"
    by (simp add: example_db_def example_doc_def)
  have h3: "\<forall>d\<in>set example_db. d_site d \<noteq> None"
    by (simp add: example_db_def example_doc_def)
  from site_statistics_invariants [OF h1 h2] h3 example_statistics
  have "entry_consistent example_db [65]
     \<lparr>total_articles = 3, non_toxic_count = 1, slightly_toxic_count = 1,
      very_toxic_count = 1, non_toxic_pct = 3333/100, slightly_toxic_pct = 3333/100,
      very_toxic_pct = 3333/100\<rparr>"
   "entry_consistent example_db [66]
     \<lparr>total_articles = 1, non_toxic_count = 1, slightly_toxic_count = 0,
      very_toxic_count = 0, non_toxic_pct = 100, slightly_toxic_pct = 0,
      very_toxic_pct = 0\<rparr>"
    by auto
  note a = this
  have lv': "set (map d_toxicity_level example_db_siteless) \<subseteq> levels"
    by (simp add: example_db_siteless_def example_doc_def levels_def)
  then have k2: "\<forall>d\<in>set example_db_siteless. d_toxicity_level d \<in> levels" by auto
  have st': "None \<in> set (map d_site example_db_siteless)"
    by (simp add: example_db_siteless_def example_doc_def)
  have k3: "\<exists>d\<in>set example_db_siteless. d_site d = None"
    by (simp add: example_db_siteless_def example_doc_def)
  from site_statistics_invariants [OF refl k2] k3
  have b: "get_statistics_by_site (aggregate example_db_siteless) = Inl KeyError"
    by blast
  from h1 lv st example_statistics a lv' st' b show ?thesis by blast
qed










end
